theory Spec2Isabelle
  imports Main "HOL-Library.Word"
begin

unbundle bit_operations_syntax

section \<open>Trinary numbers\<close>

text \<open>
  The interpreter (\<^verbatim>\<open>unshackled.c\<close>) stores a number as a head trit, repeated
  towards infinity, and a ring of \<^verbatim>\<open>width\<close> explicit trits.  The ring is a circular
  doubly linked list: \<^verbatim>\<open>n->tail\<close> points at position 0, \<^verbatim>\<open>->left\<close> leads to the next
  more significant trit, and the \<^verbatim>\<open>->left\<close> of the most significant trit leads back to
  position 0 (so \<^verbatim>\<open>n->tail->right\<close> is the most significant trit).  The model keeps
  the ring as the list of the trits met from \<^verbatim>\<open>n->tail\<close> along \<^verbatim>\<open>->left\<close>; the field
  \<^verbatim>\<open>width\<close> is the length of that list.  Inserting a node between \<^verbatim>\<open>n->tail->right\<close>
  and \<^verbatim>\<open>n->tail\<close> appends to the list; moving \<^verbatim>\<open>n->tail\<close> one node to the left
  rotates the list.  A null tail (after \<^verbatim>\<open>xlat2\<close>) is the empty list.

  Trits are \<^verbatim>\<open>int_fast8_t\<close> in the source and only ever hold 0, 1 or 2; they are
  natural numbers here.  A memory cell pointer is the index of the cell in the store,
  \<open>None\<close> is the null pointer.  The cached code point is an \<^verbatim>\<open>int32_t\<close>: \<open>-1\<close> means
  not a code point, \<open>-2\<close> means to be computed.
\<close>

record Number =
  head :: nat
  tail :: "nat list"
  memptr :: "nat option"
  unicode :: int

definition width :: "Number \<Rightarrow> nat" where
  "width n = length (tail n)"

text \<open>The trit at position \<open>i\<close> of the infinite stream a number stands for.\<close>

definition trit_at :: "Number \<Rightarrow> nat \<Rightarrow> nat" where
  "trit_at n i = (if i < length (tail n) then tail n ! i else head n)"

text \<open>Every trit is 0, 1 or 2 and the ring is not empty.\<close>

definition wf_number :: "Number \<Rightarrow> bool" where
  "wf_number n \<longleftrightarrow> head n < 3 \<and> list_all (\<lambda>t. t < 3) (tail n) \<and> tail n \<noteq> []"

text \<open>
  Two numbers are value-equal when their heads agree and their tails agree once the most
  significant trits equal to the head are dropped.
\<close>

definition strip_head :: "nat \<Rightarrow> nat list \<Rightarrow> nat list" where
  "strip_head h ts = rev (dropWhile (\<lambda>t. t = h) (rev ts))"

definition value_eq :: "Number \<Rightarrow> Number \<Rightarrow> bool" where
  "value_eq n m \<longleftrightarrow> head n = head m \<and> strip_head (head n) (tail n) = strip_head (head m) (tail m)"

subsection \<open>Crazy operation\<close>

text \<open>The flat array \<^verbatim>\<open>OPR\<close> of \<^verbatim>\<open>opr\<close>, read at index \<^verbatim>\<open>(a%3) + 3*(d%3)\<close>.\<close>

definition OPR :: "nat list" where
  "OPR = [1,0,0, 1,0,2, 2,2,1]"

definition opr_trit :: "nat \<Rightarrow> nat \<Rightarrow> nat" where
  "opr_trit a d = OPR ! ((a mod 3) + 3 * (d mod 3))"

text \<open>
  The loop of \<^verbatim>\<open>opr\<close>: both rings are walked from position 0; when one ring ends
  before the other, a node holding its head is inserted at its most significant end, and
  the trit written to both rings is the table entry of the two current trits.
\<close>

fun opr_loop :: "nat \<Rightarrow> nat \<Rightarrow> nat list \<Rightarrow> nat list \<Rightarrow> nat list" where
  "opr_loop ha hb [] [] = []"
| "opr_loop ha hb (x # xs) [] = opr_trit x hb # opr_loop ha hb xs []"
| "opr_loop ha hb [] (y # ys) = opr_trit ha y # opr_loop ha hb [] ys"
| "opr_loop ha hb (x # xs) (y # ys) = opr_trit x y # opr_loop ha hb xs ys"

definition opr :: "Number \<Rightarrow> Number \<Rightarrow> Number \<times> Number" where
  "opr a d =
     (let ts = opr_loop (head a) (head d) (tail a) (tail d);
          h = opr_trit (head a) (head d)
      in (a\<lparr>head := h, tail := ts, memptr := None, unicode := -2\<rparr>,
          d\<lparr>head := h, tail := ts, memptr := None, unicode := -2\<rparr>))"

text \<open>
  The table of the specification, rows indexed by the first index and columns by the
  second.
\<close>

definition spec_table :: "nat list list" where
  "spec_table = [[1,0,0], [1,0,2], [2,2,1]]"

subsection \<open>Errors\<close>

text \<open>Every \<^verbatim>\<open>exit(1)\<close> and \<^verbatim>\<open>return 1\<close> of the source, named after its diagnostic.\<close>

datatype error =
    OutOfMemory
  | RotationWidthExceeded
  | UnexpectedNegative
  | CannotApplyXlat2
  | InvalidUtf8
  | InvalidCodepoint
  | FileNotFound
  | InputError
  | InvalidCharacter
  | NotAValidProgram
  | InvalidInstruction int

subsection \<open>Construction and copying\<close>

text \<open>
  The digits written by \<^verbatim>\<open>to_number\<close> and \<^verbatim>\<open>repair_number_after_xlat2\<close>:
  \<^verbatim>\<open>symbol % 3\<close> first, then one more node for as long as \<^verbatim>\<open>symbol /= 3\<close> is not zero.
\<close>

fun to_trits :: "nat \<Rightarrow> nat list" where
  "to_trits symbol = (symbol mod 3) # (if symbol div 3 = 0 then [] else to_trits (symbol div 3))"

declare to_trits.simps [simp del]

definition to_number :: "int \<Rightarrow> error + Number" where
  "to_number symbol =
     (if symbol < 0 then Inl UnexpectedNegative
      else Inr \<lparr>head = 0, tail = to_trits (nat symbol), memptr = None,
                unicode = (if symbol < 0x110000 then symbol else - 1)\<rparr>)"

definition nl :: Number where
  "nl = \<lparr>head = 2, tail = [1], memptr = None, unicode = - 1\<rparr>"

definition eof :: Number where
  "eof = \<lparr>head = 2, tail = [2], memptr = None, unicode = - 1\<rparr>"

definition clone_number :: "Number \<Rightarrow> Number" where
  "clone_number inp = \<lparr>head = head inp, tail = tail inp, memptr = memptr inp, unicode = unicode inp\<rparr>"

text \<open>\<^verbatim>\<open>copy_number(n, in)\<close> frees the ring of \<^verbatim>\<open>n\<close> and fills \<^verbatim>\<open>n\<close> from \<^verbatim>\<open>in\<close>.\<close>

definition copy_number :: "Number \<Rightarrow> Number \<Rightarrow> Number" where
  "copy_number n inp = n\<lparr>head := head inp, tail := tail inp, memptr := memptr inp, unicode := unicode inp\<rparr>"

subsection \<open>Unicode projection\<close>

text \<open>
  The loop of \<^verbatim>\<open>update_unicode\<close>.  The running sum stays below \<^verbatim>\<open>0x110000\<close> and the
  factor below \<open>3 * 0x110000\<close>, so the \<^verbatim>\<open>int32_t\<close> arithmetic never overflows.
\<close>

fun unicode_loop :: "int \<Rightarrow> int \<Rightarrow> nat list \<Rightarrow> int" where
  "unicode_loop u factor [] = u"
| "unicode_loop u factor (t # ts) =
     (let u1 = u + factor * int t;
          factor1 = (if factor < 0x110000 then factor * 3 else factor)
      in if u1 \<ge> 0x110000 then - 1 else unicode_loop u1 factor1 ts)"

definition update_unicode :: "Number \<Rightarrow> Number" where
  "update_unicode n =
     (if unicode n \<noteq> - 2 then n
      else if head n \<noteq> 0 then n\<lparr>unicode := - 1\<rparr>
      else n\<lparr>unicode := unicode_loop 0 1 (tail n)\<rparr>)"

subsection \<open>Newline test, real width\<close>

text \<open>
  \<^verbatim>\<open>is_nl\<close> walks from the most significant trit down to position 1 and wants a 2
  everywhere, then wants a 1 at position 0.
\<close>

definition is_nl :: "Number \<Rightarrow> bool" where
  "is_nl n =
     (if head n \<noteq> 2 then False
      else case tail n of
             [] \<Rightarrow> False
           | t0 # ts \<Rightarrow> if \<not> list_all (\<lambda>t. t = 2) ts then False else t0 = 1)"

fun real_width_loop :: "nat \<Rightarrow> nat \<Rightarrow> nat \<Rightarrow> nat list \<Rightarrow> nat" where
  "real_width_loop h i real_width [] = real_width"
| "real_width_loop h i real_width (t # ts) =
     real_width_loop h (i + 1) (if t \<noteq> h then i + 1 else real_width) ts"

definition get_real_width :: "Number \<Rightarrow> nat" where
  "get_real_width n = real_width_loop (head n) 0 0 (tail n)"

subsection \<open>Modulo\<close>

text \<open>
  \<^verbatim>\<open>mod(n, modul)\<close> on C \<^verbatim>\<open>int\<close>s.  All operands of \<^verbatim>\<open>%\<close> are non-negative, where C
  and HOL agree.
\<close>

fun mod_loop :: "int \<Rightarrow> nat \<Rightarrow> int \<Rightarrow> int \<Rightarrow> nat list \<Rightarrow> int" where
  "mod_loop modul h result position [] = result"
| "mod_loop modul h result position (t # ts) =
     (let result1 = result + position * (int t + (modul - int h));
          result2 = result1 mod modul;
          position1 = position * 3;
          position2 = position1 mod modul
      in mod_loop modul h result2 position2 ts)"

definition mod_number :: "Number \<Rightarrow> int \<Rightarrow> int" where
  "mod_number n modul = mod_loop modul (head n) ((29524 mod modul) * int (head n)) 1 (tail n)"

subsection \<open>Rotation\<close>

text \<open>
  The \<^verbatim>\<open>while\<close> loop of \<^verbatim>\<open>rotate_r\<close> inserts nodes holding the head between the most
  significant trit and position 0 until the ring has \<^verbatim>\<open>rotwidth\<close> nodes.
\<close>

function rotate_pad :: "nat \<Rightarrow> nat \<Rightarrow> nat list \<Rightarrow> nat list" where
  "rotate_pad h rotwidth ts = (if length ts < rotwidth then rotate_pad h rotwidth (ts @ [h]) else ts)"
  by pat_completeness auto
termination
  by (relation "measure (\<lambda>(h, rotwidth, ts). rotwidth - length ts)") auto

declare rotate_pad.simps [simp del]

text \<open>
  Then \<^verbatim>\<open>n->tail = n->tail->left\<close>: position 0 of the ring becomes the node that was at
  position 1, no node is unlinked and \<^verbatim>\<open>width\<close> is not changed, so the node that was at
  position 0 is now the last one met along \<^verbatim>\<open>->left\<close>.
\<close>

definition rotate_r :: "Number \<Rightarrow> nat \<Rightarrow> Number" where
  "rotate_r n rotwidth =
     (let ts = rotate_pad (head n) rotwidth (tail n)
      in n\<lparr>tail := rotate1 ts, memptr := None, unicode := - 2\<rparr>)"

subsection \<open>The xlat2 substitution\<close>

text \<open>The 94 characters of the table; the backslash is written by its code \<open>0x5C\<close>.\<close>

definition xlat2_table :: string where
  \<open>xlat2_table = ''5z]&gqtyfr$(we4{WP)H-Zn,[%'' @ [CHR 0x5C] @ ''3dL+Q;>U!pJS72FhOA1C'' @
     ''B6v^=I_0/8|jsb9m<.TVac`uY*MK'X~xDl}REokN:#?G"i@''\<close>

definition xlat2 :: "Number \<Rightarrow> error + Number" where
  "xlat2 n0 =
     (let n = update_unicode n0
      in if unicode n < 33 \<or> unicode n > 126 then Inl CannotApplyXlat2
         else Inr (n\<lparr>unicode := int (of_char (xlat2_table ! nat ((unicode n - 33) mod 94))),
                     tail := []\<rparr>))"

definition repair_number_after_xlat2 :: "Number \<Rightarrow> Number" where
  "repair_number_after_xlat2 n =
     (if tail n \<noteq> [] then n
      else if unicode n < 0 then n
      else n\<lparr>tail := to_trits (nat (unicode n)), memptr := None\<rparr>)"

section \<open>Memory\<close>

text \<open>
  A memory cell holds a pointer to its number (null until the cell is first given a
  value) and a pointer to the cell of the next address.  Cells are allocated by
  \<^verbatim>\<open>malloc\<close> and never freed: the store is the list of all cells allocated so far and a
  new cell gets the next index.  Numbers held by cells are never shared, so a cell holds
  its number directly.
\<close>

record MemCell =
  val :: "Number option"
  next_cell :: "nat option"

text \<open>
  A node of the memory tree: the pointer to its cell and \<^verbatim>\<open>child[0]\<close>, \<^verbatim>\<open>child[1]\<close>,
  \<^verbatim>\<open>child[2]\<close>.  Every node has one parent, so nodes are kept as a tree; cells are
  shared between nodes, so nodes refer to them by index.
\<close>

datatype MemoryTree =
  MTree (cell: nat) "MemoryTree option" "MemoryTree option" "MemoryTree option"

fun child :: "MemoryTree \<Rightarrow> nat \<Rightarrow> MemoryTree option" where
  "child (MTree c c0 c1 c2) k = (if k = 0 then c0 else if k = 1 then c1 else c2)"

fun set_child :: "MemoryTree \<Rightarrow> nat \<Rightarrow> MemoryTree \<Rightarrow> MemoryTree" where
  "set_child (MTree c c0 c1 c2) k t =
     (if k = 0 then MTree c (Some t) c1 c2
      else if k = 1 then MTree c c0 (Some t) c2
      else MTree c c0 c1 (Some t))"

text \<open>\<^verbatim>\<open>MemoryTree memory[3]\<close> with the cell store.\<close>

record Memory =
  roots :: "MemoryTree list"
  cells :: "MemCell list"

definition new_cell :: MemCell where
  "new_cell = \<lparr>val = None, next_cell = None\<rparr>"

text \<open>The memory as \<^verbatim>\<open>main\<close> sets it up: three roots, each with a fresh cell.\<close>

definition initial_memory :: Memory where
  "initial_memory =
     \<lparr>roots = [MTree 0 None None None, MTree 1 None None None, MTree 2 None None None],
      cells = [new_cell, new_cell, new_cell]\<rparr>"

text \<open>
  The loop of \<^verbatim>\<open>update_memptr\<close> from node \<open>cur\<close> on, over the trits still to be read.
  It returns the subtree as left behind, \<^verbatim>\<open>last_match\<close>, and the cell store.
\<close>

fun memptr_loop ::
  "nat \<Rightarrow> nat list \<Rightarrow> MemoryTree \<Rightarrow> nat \<Rightarrow> MemCell list \<Rightarrow> MemoryTree \<times> nat \<times> MemCell list" where
  "memptr_loop h [] cur last_match cs = (cur, last_match, cs)"
| "memptr_loop h (t # ts) cur last_match cs =
     (case child cur t of
        Some nd \<Rightarrow>
          (case memptr_loop h ts nd (cell nd) cs of
             (nd', r, cs') \<Rightarrow> (set_child cur t nd', r, cs'))
      | None \<Rightarrow>
          (let (c, cs1) = (if t = h then (last_match, cs) else (length cs, cs @ [new_cell]))
           in case memptr_loop h ts (MTree c None None None) c cs1 of
                (nd', r, cs') \<Rightarrow> (set_child cur t nd', r, cs')))"

definition update_memptr :: "Number \<Rightarrow> Memory \<Rightarrow> Number \<times> Memory" where
  "update_memptr n m =
     (if memptr n \<noteq> None then (n, m)
      else let cur_node = roots m ! head n
           in case memptr_loop (head n) (tail n) cur_node (cell cur_node) (cells m) of
                (root', last_match, cs') \<Rightarrow>
                  (n\<lparr>memptr := Some last_match\<rparr>,
                   m\<lparr>roots := (roots m)[head n := root'], cells := cs'\<rparr>))"

subsection \<open>Increment\<close>

text \<open>
  The loop of \<^verbatim>\<open>increment\<close>: each trit becomes \<^verbatim>\<open>(trit + 1) % 3\<close> and the function
  returns at the first trit that is not 0 afterwards.  The flag tells whether the loop ran
  off the end of the ring.
\<close>

fun inc_loop :: "nat list \<Rightarrow> nat list \<times> bool" where
  "inc_loop [] = ([], True)"
| "inc_loop (t # ts) =
     (let t' = (t + 1) mod 3
      in if t' \<noteq> 0 then (t' # ts, False)
         else case inc_loop ts of (ts', carry) \<Rightarrow> (t' # ts', carry))"

text \<open>
  \<^verbatim>\<open>increment\<close> reads \<^verbatim>\<open>n->memptr->next\<close> from the cell store when the pointer is
  cached.
\<close>

definition increment :: "MemCell list \<Rightarrow> Number \<Rightarrow> Number" where
  "increment cs n =
     (let n1 = n\<lparr>unicode := (if unicode n \<ge> 0 \<and> unicode n < 0x110000 - 1
                               then unicode n + 1 else - 2)\<rparr>;
          n2 = (case memptr n1 of
                  None \<Rightarrow> n1
                | Some p \<Rightarrow> n1\<lparr>memptr := next_cell (cs ! p)\<rparr>)
      in case inc_loop (tail n2) of
           (ts, carry) \<Rightarrow>
             if \<not> carry then n2\<lparr>tail := ts\<rparr>
             else if head n2 = 2 then n2\<lparr>head := 0, tail := ts\<rparr>
             else n2\<lparr>tail := ts @ [head n2 + 1]\<rparr>)"

section \<open>Input and output\<close>

type_synonym byte = "8 word"

text \<open>\<^verbatim>\<open>getchar\<close> on the bytes still unread: the byte as a value 0..255, or \<^verbatim>\<open>EOF\<close>.\<close>

definition EOF :: int where
  "EOF = - 1"

definition getchar :: "byte list \<Rightarrow> int \<times> byte list" where
  "getchar inp = (case inp of [] \<Rightarrow> (EOF, []) | b # bs \<Rightarrow> (uint b, bs))"

definition read_utf8_character :: "byte list \<Rightarrow> error + (int \<times> byte list)" where
  "read_utf8_character inp =
     (case getchar inp of (c1, s1) \<Rightarrow>
        if c1 = EOF then Inr (- 1, s1)
        else if c1 AND 0x80 = 0 then Inr (c1, s1)
        else if c1 AND 0xE0 = 0xC0 then
          (case getchar s1 of (c2, s2) \<Rightarrow>
             if c2 = EOF \<or> c2 AND 0xC0 \<noteq> 0x80 then Inl InvalidUtf8
             else Inr (push_bit 6 (c1 AND 0x1F) OR (c2 AND 0x3F), s2))
        else if c1 AND 0xF0 = 0xE0 then
          (case getchar s1 of (c2, s2) \<Rightarrow>
             if c2 = EOF \<or> c2 AND 0xC0 \<noteq> 0x80 then Inl InvalidUtf8
             else case getchar s2 of (c3, s3) \<Rightarrow>
               if c3 = EOF \<or> c3 AND 0xC0 \<noteq> 0x80 then Inl InvalidUtf8
               else Inr (push_bit 12 (c1 AND 0x0F) OR push_bit 6 (c2 AND 0x3F) OR (c3 AND 0x3F), s3))
        else if c1 AND 0xF8 = 0xF0 then
          (case getchar s1 of (c2, s2) \<Rightarrow>
             if c2 = EOF \<or> c2 AND 0xC0 \<noteq> 0x80 then Inl InvalidUtf8
             else case getchar s2 of (c3, s3) \<Rightarrow>
               if c3 = EOF \<or> c3 AND 0xC0 \<noteq> 0x80 then Inl InvalidUtf8
               else case getchar s3 of (c4, s4) \<Rightarrow>
                 if c4 = EOF \<or> c4 AND 0xC0 \<noteq> 0x80 then Inl InvalidUtf8
                 else Inr (push_bit 18 (c1 AND 0x07) OR push_bit 12 (c2 AND 0x3F)
                             OR push_bit 6 (c3 AND 0x3F) OR (c4 AND 0x3F), s4))
        else Inl InvalidUtf8)"

text \<open>
  \<^verbatim>\<open>print_utf8\<close>: the bytes written, each the \<^verbatim>\<open>char\<close> the source computes.  The
  test \<^verbatim>\<open>symbol < 0x800\<close> stands twice in the source.
\<close>

definition print_utf8 :: "int \<Rightarrow> error + byte list" where
  "print_utf8 symbol =
     (if symbol < 0 \<or> symbol \<ge> 0x110000 then Inl InvalidCodepoint
      else if symbol < 0x80 then Inr [word_of_int symbol]
      else if symbol < 0x800 then
        Inr [word_of_int (0xC0 OR drop_bit 6 symbol), word_of_int (0x80 OR (symbol AND 0x3F))]
      else if symbol < 0x800 then
        Inr [word_of_int (0xC0 OR drop_bit 6 symbol), word_of_int (0x80 OR (symbol AND 0x3F))]
      else if symbol < 0x10000 then
        Inr [word_of_int (0xE0 OR drop_bit 12 symbol),
             word_of_int (0x80 OR (drop_bit 6 symbol AND 0x3F)),
             word_of_int (0x80 OR (symbol AND 0x3F))]
      else
        Inr [word_of_int (0xF0 OR drop_bit 18 symbol),
             word_of_int (0x80 OR (drop_bit 12 symbol AND 0x3F)),
             word_of_int (0x80 OR (drop_bit 6 symbol AND 0x3F)),
             word_of_int (0x80 OR (symbol AND 0x3F))])"

section \<open>Growth of the rotation width\<close>

text \<open>
  \<^verbatim>\<open>uintmax_t\<close> is taken at 64 bits; the source's own tests against \<^verbatim>\<open>UINTMAX_MAX\<close>
  are branches of the model, and the one unsigned subtraction wraps.
\<close>

definition UINTMAX_MAX :: nat where
  "UINTMAX_MAX = 2 ^ 64 - 1"

definition det_growth_policy :: "nat \<Rightarrow> nat \<Rightarrow> nat \<Rightarrow> nat \<Rightarrow> error + nat" where
  "det_growth_policy new_wordwidth old_rotwidth step slack =
     (if new_wordwidth > ((old_rotwidth + 2 ^ 64 - slack) mod 2 ^ 64) div 2 then
        if old_rotwidth > UINTMAX_MAX - step then Inl RotationWidthExceeded
        else let ret = old_rotwidth + step
             in if new_wordwidth > UINTMAX_MAX div 2 then Inl RotationWidthExceeded
                else let alt = 2 * new_wordwidth
                     in Inr (if alt > ret then alt else ret)
      else Inr old_rotwidth)"

text \<open>
  \<^verbatim>\<open>nondet_growth_policy\<close> calls \<^verbatim>\<open>rand()\<close> once, and once more when the width changes;
  the two results are \<open>r1\<close> and \<open>r2\<close>, and the number of calls made is returned with the
  new width.
\<close>

definition nondet_growth_policy ::
  "nat \<Rightarrow> nat \<Rightarrow> nat \<Rightarrow> nat \<Rightarrow> nat \<Rightarrow> nat \<Rightarrow> error + (nat \<times> nat)" where
  "nondet_growth_policy new_wordwidth old_rotwidth prob slack r1 r2 =
     (let change = (new_wordwidth > old_rotwidth div 2 \<or> r1 \<le> prob)
      in if change then
           if new_wordwidth > UINTMAX_MAX div 2 then Inl RotationWidthExceeded
           else let ret = (if 2 * new_wordwidth > old_rotwidth then 2 * new_wordwidth else old_rotwidth);
                    rnd = r2 mod (slack + 1)
                in if ret > UINTMAX_MAX - rnd then Inl RotationWidthExceeded
                   else Inr (ret + rnd, 2)
         else Inr (old_rotwidth, 1))"

section \<open>The loader\<close>

text \<open>Writing \<^verbatim>\<open>cell->val = n\<close> for the cell at index \<open>p\<close>.\<close>

definition store_val :: "Memory \<Rightarrow> nat \<Rightarrow> Number \<Rightarrow> Memory" where
  "store_val m p n = m\<lparr>cells := (cells m)[p := (cells m ! p)\<lparr>val := Some n\<rparr>]\<rparr>"

text \<open>
  The four lines that \<^verbatim>\<open>main\<close> repeats for \<^verbatim>\<open>init\<close>, \<^verbatim>\<open>c\<close> and \<^verbatim>\<open>d\<close>:
  \<^verbatim>\<open>prev = n->memptr; increment(n); update_memptr(n,memory); if (!prev->next) prev->next = n->memptr;\<close>
  The pointer \<^verbatim>\<open>n->memptr\<close> is never null where \<^verbatim>\<open>main\<close> does this.
\<close>

definition advance :: "Number \<Rightarrow> Memory \<Rightarrow> Number \<times> Memory" where
  "advance n m =
     (let prev = the (memptr n);
          n1 = increment (cells m) n
      in case update_memptr n1 m of
           (n2, m2) \<Rightarrow>
             (n2, if next_cell (cells m2 ! prev) = None
                  then m2\<lparr>cells := (cells m2)[prev := (cells m2 ! prev)\<lparr>next_cell := memptr n2\<rparr>]\<rparr>
                  else m2))"

text \<open>
  The local variables of \<^verbatim>\<open>main\<close> that the loader uses.  The array \<^verbatim>\<open>initial_values\<close>
  is not initialised by the source; an entry is \<open>None\<close> until it is assigned.
\<close>

record Loader =
  ld_memory :: Memory
  ld_init :: Number
  ld_prev :: "nat option"
  ld_prevprev :: "nat option"
  ld_pos :: int
  ld_initial_values :: "Number option list"

text \<open>
  One byte of the program file.  \<^verbatim>\<open>val\<close> is a \<^verbatim>\<open>char\<close>, read here as signed; a byte
  above 127 is refused whether \<^verbatim>\<open>char\<close> is signed or not.
\<close>

definition load_char :: "byte \<Rightarrow> Loader \<Rightarrow> error + Loader" where
  "load_char b ld =
     (let v = sint b;
          instr = (v + ld_pos ld) mod 94
      in if v = 32 \<or> v = 9 \<or> v = 13 \<or> v = 10 then Inr ld
         else if v \<ge> 33 \<and> v < 127 \<and>
                 (instr = 4 \<or> instr = 5 \<or> instr = 23 \<or> instr = 39
                  \<or> instr = 40 \<or> instr = 62 \<or> instr = 68 \<or> instr = 81) then
           (case to_number v of
              Inl e \<Rightarrow> Inl e
            | Inr num \<Rightarrow>
                let p = the (memptr (ld_init ld));
                    mem1 = store_val (ld_memory ld) p num
                in case advance (ld_init ld) mem1 of
                     (init', mem2) \<Rightarrow>
                       Inr (ld\<lparr>ld_memory := mem2, ld_init := init',
                               ld_prevprev := ld_prev ld, ld_prev := Some p,
                               ld_pos := (ld_pos ld + 1) mod 564\<rparr>))
         else Inl InvalidCharacter)"

fun load_loop :: "byte list \<Rightarrow> Loader \<Rightarrow> error + Loader" where
  "load_loop [] ld = Inr ld"
| "load_loop (b # bs) ld =
     (case load_char b ld of Inl e \<Rightarrow> Inl e | Inr ld' \<Rightarrow> load_loop bs ld')"

text \<open>The body of the \<^verbatim>\<open>for (; pos < 18; pos++)\<close> loop that follows the end of the file.\<close>

definition init_step :: "int \<Rightarrow> Loader \<Rightarrow> Loader" where
  "init_step pos ld =
     (let mem = ld_memory ld;
          m1 = clone_number (the (val (cells mem ! the (ld_prev ld))));
          m2 = clone_number (the (val (cells mem ! the (ld_prevprev ld))))
      in case opr m1 m2 of
           (m1a, m2a) \<Rightarrow>
             (case (if pos < 12 then (mem, ld_initial_values ld)
                    else case update_memptr (update_unicode m2a) mem of
                           (m2b, mem') \<Rightarrow>
                             (mem', (ld_initial_values ld)[nat (pos - 12) := Some m2b])) of
                (mem1, ivs) \<Rightarrow>
                  let m1b = update_unicode m1a;
                      p = the (memptr (ld_init ld));
                      mem2 = store_val mem1 p m1b
                  in case advance (ld_init ld) mem2 of
                       (init', mem3) \<Rightarrow>
                         ld\<lparr>ld_memory := mem3, ld_init := init',
                            ld_prevprev := ld_prev ld, ld_prev := Some p,
                            ld_initial_values := ivs\<rparr>))"

function init_loop :: "int \<Rightarrow> Loader \<Rightarrow> Loader" where
  "init_loop pos ld = (if pos < 18 then init_loop (pos + 1) (init_step pos ld) else ld)"
  by pat_completeness auto
termination
  by (relation "measure (\<lambda>(pos, ld). nat (18 - pos))") auto

declare init_loop.simps [simp del]

text \<open>
  The loader part of \<^verbatim>\<open>main\<close> up to the test of \<^verbatim>\<open>prevprev\<close>, on the bytes of the
  program file: \<^verbatim>\<open>init\<close> starts at address 0 and the \<^verbatim>\<open>while (!feof(file))\<close> loop
  stores the program.  Opening and reading the file cannot fail here.
\<close>

definition read_program :: "byte list \<Rightarrow> error + Loader" where
  "read_program prog =
     (case to_number 0 of
        Inl e \<Rightarrow> Inl e
      | Inr init0 \<Rightarrow>
          (case update_memptr init0 initial_memory of
             (init1, mem1) \<Rightarrow>
               (case load_loop prog
                       \<lparr>ld_memory = mem1, ld_init = init1, ld_prev = None, ld_prevprev = None,
                        ld_pos = 0, ld_initial_values = replicate 6 None\<rparr> of
                  Inl e \<Rightarrow> Inl e
                | Inr ld \<Rightarrow>
                    if ld_prevprev ld = None then Inl NotAValidProgram
                    else Inr ld)))"

text \<open>Then \<^verbatim>\<open>pos %= 6\<close> and the \<^verbatim>\<open>for\<close> loop, up to \<^verbatim>\<open>free_number(&init)\<close>.\<close>

definition load :: "byte list \<Rightarrow> error + Loader" where
  "load prog =
     (case read_program prog of
        Inl e \<Rightarrow> Inl e
      | Inr ld \<Rightarrow> Inr (init_loop (ld_pos ld mod 6) ld))"

section \<open>Execution\<close>

text \<open>
  What \<^verbatim>\<open>main\<close> draws from \<^verbatim>\<open>rand()\<close> before it reads the program, and the results
  of the later calls of \<^verbatim>\<open>rand()\<close>, in order.
\<close>

record Params =
  p_rotwidth :: nat
  p_growth_slack :: nat
  p_growth_step :: nat
  p_growth_prob :: nat
  p_det_growth :: bool
  p_rand :: "nat \<Rightarrow> nat"

record State =
  st_memory :: Memory
  st_a :: Number
  st_c :: Number
  st_d :: Number
  st_pos :: int
  st_step :: int
  st_max_wordwidth :: nat
  st_rotwidth :: nat
  st_initial_values :: "Number option list"
  st_stdin :: "byte list"
  st_stdout :: "byte list"
  st_rand_calls :: nat

datatype result = Continue State | Halt State | Fail error

definition initial_value :: "State \<Rightarrow> int \<Rightarrow> Number" where
  "initial_value st k = the (st_initial_values st ! nat k)"

text \<open>The state in which \<^verbatim>\<open>main\<close> enters \<^verbatim>\<open>while (1)\<close>.\<close>

definition start :: "Params \<Rightarrow> byte list \<Rightarrow> byte list \<Rightarrow> error + State" where
  "start ps prog inp =
     (case to_number 0 of
        Inl e \<Rightarrow> Inl e
      | Inr zero \<Rightarrow>
          (case load prog of
             Inl e \<Rightarrow> Inl e
           | Inr ld \<Rightarrow>
               (case update_memptr zero (ld_memory ld) of
                  (c, mem1) \<Rightarrow>
                    (case update_memptr zero mem1 of
                       (d, mem2) \<Rightarrow>
                         Inr \<lparr>st_memory = mem2, st_a = zero, st_c = c, st_d = d,
                              st_pos = 0, st_step = 1, st_max_wordwidth = 0,
                              st_rotwidth = p_rotwidth ps,
                              st_initial_values = ld_initial_values ld,
                              st_stdin = inp, st_stdout = [], st_rand_calls = 0\<rparr>))))"

subsection \<open>The instructions\<close>

definition do_jmp :: "State \<Rightarrow> State" where
  "do_jmp st =
     (let d = st_d st;
          dp = the (memptr d);
          mem = st_memory st
      in case (case val (cells mem ! dp) of
                 None \<Rightarrow> (copy_number (st_c st) (initial_value st (mod_number d 6)), mem)
               | Some v \<Rightarrow>
                   (case update_memptr (repair_number_after_xlat2 v) mem of
                      (v', mem') \<Rightarrow> (copy_number (st_c st) v', store_val mem' dp v'))) of
           (c1, mem1) \<Rightarrow>
             (case update_memptr c1 mem1 of
                (c2, mem2) \<Rightarrow>
                  let pos = mod_number c2 564;
                      cp = the (memptr c2);
                      mem3 = (if val (cells mem2 ! cp) = None
                              then store_val mem2 cp (clone_number (initial_value st (pos mod 6)))
                              else mem2)
                  in st\<lparr>st_memory := mem3, st_c := c2, st_pos := pos\<rparr>))"

definition do_out :: "State \<Rightarrow> error + State" where
  "do_out st =
     (if is_nl (st_a st) then Inr (st\<lparr>st_stdout := st_stdout st @ [0x0A]\<rparr>)
      else let a = update_unicode (st_a st)
           in case print_utf8 (unicode a) of
                Inl e \<Rightarrow> Inl e
              | Inr bs \<Rightarrow> Inr (st\<lparr>st_a := a, st_stdout := st_stdout st @ bs\<rparr>))"

definition do_in :: "State \<Rightarrow> error + State" where
  "do_in st =
     (case read_utf8_character (st_stdin st) of
        Inl e \<Rightarrow> Inl e
      | Inr (inp, rest) \<Rightarrow>
          if inp = - 1 then
            (case to_number 2 of
               Inl e \<Rightarrow> Inl e
             | Inr a \<Rightarrow> Inr (st\<lparr>st_a := a\<lparr>head := 2, unicode := - 1\<rparr>, st_stdin := rest\<rparr>))
          else if inp = 0x0A then
            (case to_number 1 of
               Inl e \<Rightarrow> Inl e
             | Inr a \<Rightarrow> Inr (st\<lparr>st_a := a\<lparr>head := 2\<rparr>, st_stdin := rest\<rparr>))
          else
            (case to_number inp of
               Inl e \<Rightarrow> Inl e
             | Inr a \<Rightarrow> Inr (st\<lparr>st_a := a, st_stdin := rest\<rparr>)))"

definition do_rot :: "State \<Rightarrow> State" where
  "do_rot st =
     (let d = st_d st;
          dp = the (memptr d);
          mem = st_memory st;
          v = (case val (cells mem ! dp) of
                 None \<Rightarrow> clone_number (initial_value st (mod_number d 6))
               | Some v \<Rightarrow> repair_number_after_xlat2 v);
          v' = rotate_r v (st_rotwidth st)
      in st\<lparr>st_memory := store_val mem dp v', st_a := copy_number (st_a st) v'\<rparr>)"

definition do_movd :: "Params \<Rightarrow> State \<Rightarrow> error + State" where
  "do_movd ps st =
     (let d = st_d st;
          dp = the (memptr d);
          mem = st_memory st
      in case (case val (cells mem ! dp) of
                 None \<Rightarrow> (copy_number d (initial_value st (mod_number d 6)), mem)
               | Some v \<Rightarrow>
                   (case update_memptr (repair_number_after_xlat2 v) mem of
                      (v', mem') \<Rightarrow> (copy_number d v', store_val mem' dp v'))) of
           (d1, mem1) \<Rightarrow>
             (case update_memptr d1 mem1 of
                (d2, mem2) \<Rightarrow>
                  let st1 = st\<lparr>st_memory := mem2, st_d := d2\<rparr>
                  in if width d2 > st_max_wordwidth st then
                       let w = get_real_width d2
                       in if w > st_max_wordwidth st then
                            if p_det_growth ps then
                              (case det_growth_policy w (st_rotwidth st)
                                      (p_growth_step ps) (p_growth_slack ps) of
                                 Inl e \<Rightarrow> Inl e
                               | Inr r \<Rightarrow> Inr (st1\<lparr>st_max_wordwidth := w, st_rotwidth := r\<rparr>))
                            else
                              (case nondet_growth_policy w (st_rotwidth st)
                                      (p_growth_prob ps) (p_growth_slack ps)
                                      (p_rand ps (st_rand_calls st))
                                      (p_rand ps (st_rand_calls st + 1)) of
                                 Inl e \<Rightarrow> Inl e
                               | Inr (r, k) \<Rightarrow>
                                   Inr (st1\<lparr>st_max_wordwidth := w, st_rotwidth := r,
                                             st_rand_calls := st_rand_calls st + k\<rparr>))
                          else Inr st1
                     else Inr st1))"

definition do_opr :: "State \<Rightarrow> State" where
  "do_opr st =
     (let d = st_d st;
          dp = the (memptr d);
          mem = st_memory st;
          v = (case val (cells mem ! dp) of
                 None \<Rightarrow> clone_number (initial_value st (mod_number d 6))
               | Some v \<Rightarrow> repair_number_after_xlat2 v)
      in case opr (st_a st) v of
           (a', v') \<Rightarrow> st\<lparr>st_memory := store_val mem dp v', st_a := a'\<rparr>)"

text \<open>The \<^verbatim>\<open>switch\<close> of \<^verbatim>\<open>main\<close>; \<^verbatim>\<open>case 68\<close> falls into \<^verbatim>\<open>default\<close>.\<close>

definition exec_instr :: "Params \<Rightarrow> int \<Rightarrow> State \<Rightarrow> result" where
  "exec_instr ps instr st =
     (if instr = 4 then Continue (do_jmp st)
      else if instr = 5 then (case do_out st of Inl e \<Rightarrow> Fail e | Inr st' \<Rightarrow> Continue st')
      else if instr = 23 then (case do_in st of Inl e \<Rightarrow> Fail e | Inr st' \<Rightarrow> Continue st')
      else if instr = 39 then Continue (do_rot st)
      else if instr = 40 then (case do_movd ps st of Inl e \<Rightarrow> Fail e | Inr st' \<Rightarrow> Continue st')
      else if instr = 62 then Continue (do_opr st)
      else if instr = 81 then Halt st
      else Continue st)"

text \<open>What follows the \<^verbatim>\<open>switch\<close>: \<^verbatim>\<open>xlat2\<close> on the cell of \<^verbatim>\<open>c\<close>, then \<^verbatim>\<open>c\<close> and \<^verbatim>\<open>d\<close> move on.\<close>

definition after_instr :: "State \<Rightarrow> result" where
  "after_instr st =
     (let cp = the (memptr (st_c st));
          mem = st_memory st
      in case xlat2 (the (val (cells mem ! cp))) of
           Inl e \<Rightarrow> Fail e
         | Inr v \<Rightarrow>
             (case advance (st_c st) (store_val mem cp v) of
                (c', mem1) \<Rightarrow>
                  (case advance (st_d st) mem1 of
                     (d', mem2) \<Rightarrow>
                       Continue (st\<lparr>st_memory := mem2, st_c := c', st_d := d',
                                     st_pos := (st_pos st + 1) mod 564,
                                     st_step := st_step st + 1\<rparr>))))"

text \<open>
  The head of a round of \<^verbatim>\<open>while (1)\<close>: the cell of \<^verbatim>\<open>c\<close> is given a clone of an
  initial value if it has none, and its code point is brought up to date.  The number
  held by the cell is returned with the state.
\<close>

definition fetch :: "State \<Rightarrow> State \<times> Number" where
  "fetch st =
     (let cp = the (memptr (st_c st));
          mem = st_memory st;
          mem1 = (if val (cells mem ! cp) = None
                  then store_val mem cp (clone_number (initial_value st (st_pos st mod 6)))
                  else mem);
          v = update_unicode (the (val (cells mem1 ! cp)))
      in (st\<lparr>st_memory := store_val mem1 cp v\<rparr>, v))"

text \<open>One round of \<^verbatim>\<open>while (1)\<close>.\<close>

definition exec_step :: "Params \<Rightarrow> State \<Rightarrow> result" where
  "exec_step ps st =
     (case fetch st of
        (st1, v) \<Rightarrow>
          if unicode v < 33 \<or> unicode v > 126 then Fail (InvalidInstruction (st_step st))
          else case exec_instr ps ((unicode v + st_pos st) mod 94) st1 of
                 Continue st2 \<Rightarrow> after_instr st2
               | Halt st2 \<Rightarrow> Halt st2
               | Fail e \<Rightarrow> Fail e)"

text \<open>
  \<^verbatim>\<open>while (1)\<close> for at most \<open>k\<close> rounds; \<open>Continue\<close> is returned when the loop has not
  left \<^verbatim>\<open>main\<close> by then.
\<close>

fun exec_loop :: "Params \<Rightarrow> nat \<Rightarrow> State \<Rightarrow> result" where
  "exec_loop ps 0 st = Continue st"
| "exec_loop ps (Suc k) st =
     (case exec_step ps st of
        Continue st' \<Rightarrow> exec_loop ps k st'
      | Halt st' \<Rightarrow> Halt st'
      | Fail e \<Rightarrow> Fail e)"

definition main :: "Params \<Rightarrow> byte list \<Rightarrow> byte list \<Rightarrow> nat \<Rightarrow> result" where
  "main ps prog inp k =
     (case start ps prog inp of
        Inl e \<Rightarrow> Fail e
      | Inr st \<Rightarrow> exec_loop ps k st)"

section \<open>Notions of the specification\<close>

text \<open>
  Rotation as the specification words it: the tail is padded with the head up to the
  target width and its least significant trit is dropped.
\<close>

definition spec_rotate_tail :: "Number \<Rightarrow> nat \<Rightarrow> nat list" where
  "spec_rotate_tail n W = tl (tail n @ replicate (W - length (tail n)) (head n))"

text \<open>
  Structure of UTF-8 input: a continuation byte is \<open>10xxxxxx\<close>; a lead byte announces a
  sequence of one to four bytes (\<open>0xxxxxxx\<close>, \<open>110xxxxx\<close>, \<open>1110xxxx\<close>, \<open>11110xxx\<close>) or
  is none of these.  Input is structurally valid when it is at its end, or starts with
  a lead byte followed by as many continuation bytes as the lead byte announces.
\<close>

definition is_continuation :: "byte \<Rightarrow> bool" where
  "is_continuation b \<longleftrightarrow> uint b AND 0xC0 = 0x80"

definition sequence_length :: "byte \<Rightarrow> nat" where
  "sequence_length b =
     (if uint b AND 0x80 = 0 then 1
      else if uint b AND 0xE0 = 0xC0 then 2
      else if uint b AND 0xF0 = 0xE0 then 3
      else if uint b AND 0xF8 = 0xF0 then 4
      else 0)"

definition structurally_valid :: "byte list \<Rightarrow> bool" where
  "structurally_valid inp =
     (case inp of
        [] \<Rightarrow> True
      | b # bs \<Rightarrow>
          sequence_length b \<noteq> 0 \<and>
          sequence_length b - 1 \<le> length bs \<and>
          list_all is_continuation (take (sequence_length b - 1) bs))"

text \<open>
  The value the specification gives for \<^verbatim>\<open>mod\<close>: the sum of \<open>(tail[i] - head) * 3^i\<close>
  plus \<open>29524 * head\<close>, reduced modulo \<open>m\<close>.
\<close>

definition mod_formula :: "Number \<Rightarrow> int \<Rightarrow> int" where
  "mod_formula n m =
     ((\<Sum>i<length (tail n). (int (tail n ! i) - int (head n)) * 3 ^ i) + 29524 * int (head n)) mod m"

text \<open>
  The loop of \<^verbatim>\<open>mod\<close> once more, this time asking that every value it computes before
  a \<^verbatim>\<open>%\<close> is a non-negative 32-bit \<^verbatim>\<open>int\<close>.
\<close>

fun mod_loop_fits :: "int \<Rightarrow> nat \<Rightarrow> int \<Rightarrow> int \<Rightarrow> nat list \<Rightarrow> bool" where
  "mod_loop_fits modul h result position [] = True"
| "mod_loop_fits modul h result position (t # ts) =
     (let result1 = result + position * (int t + (modul - int h));
          position1 = position * 3
      in - (2 ^ 31) \<le> result1 \<and> result1 < 2 ^ 31 \<and> - (2 ^ 31) \<le> position1 \<and> position1 < 2 ^ 31 \<and>
         0 \<le> result1 \<and> 0 \<le> position1 \<and>
         mod_loop_fits modul h (result1 mod modul) (position1 mod modul) ts)"

text \<open>The sum of \<open>(ts[i] - h) * 3^i\<close> by Horner's rule.\<close>

fun poly3 :: "int \<Rightarrow> nat list \<Rightarrow> int" where
  "poly3 h [] = 0"
| "poly3 h (t # ts) = (int t - h) + 3 * poly3 h ts"

text \<open>
  The value a number shows in its \<open>W\<close> least significant trits; the numbers are the
  3-adic integers, and this is the value modulo \<open>3^W\<close>.
\<close>

definition window_value :: "Number \<Rightarrow> nat \<Rightarrow> nat" where
  "window_value n W = (\<Sum>i<W. trit_at n i * 3 ^ i)"

text \<open>
  Streams of trits: the stream of a tail and a head, the stream that is one more than a
  given stream, the head and tail \<^verbatim>\<open>increment\<close> leaves, and the value of the first \<open>W\<close>
  trits of a stream.
\<close>

definition stream_of :: "nat list \<Rightarrow> nat \<Rightarrow> nat \<Rightarrow> nat" where
  "stream_of ts h i = (if i < length ts then ts ! i else h)"

definition inc_stream :: "(nat \<Rightarrow> nat) \<Rightarrow> nat \<Rightarrow> nat" where
  "inc_stream s i = (s i + (if \<forall>j<i. s j = 2 then 1 else 0)) mod 3"

definition inc_pair :: "nat list \<Rightarrow> nat \<Rightarrow> nat list \<times> nat" where
  "inc_pair ts h =
     (case inc_loop ts of
        (ts', carry) \<Rightarrow>
          if \<not> carry then (ts', h) else if h = 2 then (ts', 0) else (ts' @ [h + 1], h))"

definition stream_value :: "(nat \<Rightarrow> nat) \<Rightarrow> nat \<Rightarrow> nat" where
  "stream_value s W = (\<Sum>i<W. s i * 3 ^ i)"

text \<open>
  The substitution of \<^verbatim>\<open>xlat2\<close> on code points; \<^verbatim>\<open>xlat2\<close> followed by
  \<^verbatim>\<open>repair_number_after_xlat2\<close>, once and \<open>k\<close> times; the number \<^verbatim>\<open>to_number\<close> builds
  for a code point; and the cycles of the substitution on the code points 33 to 126.
\<close>

definition xlat2_map :: "int \<Rightarrow> int" where
  "xlat2_map u = int (of_char (xlat2_table ! nat ((u - 33) mod 94)))"

definition xlat2_repaired :: "Number \<Rightarrow> error + Number" where
  "xlat2_repaired n = (case xlat2 n of Inl e \<Rightarrow> Inl e | Inr v \<Rightarrow> Inr (repair_number_after_xlat2 v))"

fun xlat2_times :: "nat \<Rightarrow> Number \<Rightarrow> error + Number" where
  "xlat2_times 0 n = Inr n"
| "xlat2_times (Suc k) n = (case xlat2_repaired n of Inl e \<Rightarrow> Inl e | Inr v \<Rightarrow> xlat2_times k v)"

definition number_of :: "int \<Rightarrow> Number" where
  "number_of v = \<lparr>head = 0, tail = to_trits (nat v), memptr = None, unicode = v\<rparr>"

definition xlat2_cycles :: "int list list" where
  "xlat2_cycles =
     [[33, 53, 45, 119, 78, 49, 87, 48, 123, 71, 83, 94, 57, 91, 106, 77, 65, 59, 92, 115, 82,
       118, 107, 75, 104, 89, 56, 44, 40, 121, 35, 93, 98, 84, 61, 100, 97, 46, 101, 99, 86, 95,
       109, 88, 47, 52, 72, 55, 110, 126, 64, 81, 54, 90, 124, 34, 122, 63, 43, 36, 38, 113, 108,
       39, 116, 69, 112, 68],
      [37, 103, 117, 111, 120, 58],
      [41, 102, 96, 60, 51],
      [42, 114, 125, 105],
      [50, 80, 66, 62, 76, 79, 67, 85, 73],
      [70, 74]]"

text \<open>
  The node a path of trits leads to from a node of the memory tree, if all its nodes
  exist, and the cell of that node.
\<close>

fun find_node :: "MemoryTree \<Rightarrow> nat list \<Rightarrow> MemoryTree option" where
  "find_node t [] = Some t"
| "find_node t (k # ks) = (case child t k of None \<Rightarrow> None | Some nd \<Rightarrow> find_node nd ks)"

definition find_cell :: "MemoryTree \<Rightarrow> nat list \<Rightarrow> nat option" where
  "find_cell t ks = map_option cell (find_node t ks)"

text \<open>
  The sharing of cells in the tree of head \<open>h\<close>: a child reached by the trit \<open>h\<close> has the
  cell of its parent, at every node.
\<close>

fun shares :: "nat \<Rightarrow> MemoryTree \<Rightarrow> bool" where
  "shares h (MTree c c0 c1 c2) \<longleftrightarrow>
     (case c0 of None \<Rightarrow> True | Some nd \<Rightarrow> (h = 0 \<longrightarrow> cell nd = c) \<and> shares h nd) \<and>
     (case c1 of None \<Rightarrow> True | Some nd \<Rightarrow> (h = 1 \<longrightarrow> cell nd = c) \<and> shares h nd) \<and>
     (case c2 of None \<Rightarrow> True | Some nd \<Rightarrow> (h = 2 \<longrightarrow> cell nd = c) \<and> shares h nd)"

text \<open>The cell the tree holds for a number, and the sharing in the three trees.\<close>

definition cell_of :: "Memory \<Rightarrow> Number \<Rightarrow> nat option" where
  "cell_of m n = find_cell (roots m ! head n) (tail n)"

definition memory_ok :: "Memory \<Rightarrow> bool" where
  "memory_ok m \<longleftrightarrow> length (roots m) = 3 \<and> (\<forall>h<3. shares h (roots m ! h))"

text \<open>
  \<open>later m m'\<close>: the memory \<open>m'\<close> is what \<open>m\<close> has become after any number of calls of
  \<^verbatim>\<open>update_memptr\<close> on well-formed numbers and of writes to the cells.  The memories the
  interpreter can be in are those later than \<open>initial_memory\<close>.
\<close>

inductive later :: "Memory \<Rightarrow> Memory \<Rightarrow> bool" where
  later_refl: "later m m"
| later_lookup: "later m m1 \<Longrightarrow> wf_number n \<Longrightarrow> update_memptr n m1 = (n', m2) \<Longrightarrow> later m m2"
| later_store: "later m m1 \<Longrightarrow> later m (m1\<lparr>cells := cs\<rparr>)"

text \<open>
  \<open>n\<close> rounds of the loop that follows the end of the program file, the first with index
  \<open>pos\<close>; and the number a round with index 12 or more keeps in \<^verbatim>\<open>initial_values\<close>.
\<close>

fun init_steps :: "int \<Rightarrow> nat \<Rightarrow> Loader \<Rightarrow> Loader" where
  "init_steps pos 0 ld = ld"
| "init_steps pos (Suc n) ld = init_steps (pos + 1) n (init_step pos ld)"

definition retained :: "Loader \<Rightarrow> Number" where
  "retained ld =
     (let mem = ld_memory ld;
          m1 = clone_number (the (val (cells mem ! the (ld_prev ld))));
          m2 = clone_number (the (val (cells mem ! the (ld_prevprev ld))))
      in fst (update_memptr (update_unicode (snd (opr m1 m2))) mem))"

text \<open>
  The Unicode cache as the specification wants it: when it is not \<open>-2\<close>, it is the value
  of the tail if the head is 0 and that value is below \<open>0x110000\<close>, and \<open>-1\<close> in every
  other case.
\<close>

definition numeric_value :: "Number \<Rightarrow> int" where
  "numeric_value n = (\<Sum>i<length (tail n). int (tail n ! i) * 3 ^ i)"

definition unicode_cache_ok :: "Number \<Rightarrow> bool" where
  "unicode_cache_ok n \<longleftrightarrow>
     unicode n = - 2 \<or>
     (if head n = 0 \<and> numeric_value n < 0x110000 then unicode n = numeric_value n
      else unicode n = - 1)"

text \<open>
  The cells a subtree refers to, and the tree of head \<open>h\<close> giving different cells to
  different values: at every node, a child reached by the trit \<open>h\<close> has the cell of its
  parent, the subtree of any other child does not refer to that cell, and the subtrees of
  two children refer to no common cell.
\<close>

fun cells_of :: "MemoryTree \<Rightarrow> nat set" where
  "cells_of (MTree c c0 c1 c2) =
     insert c ((case c0 of None \<Rightarrow> {} | Some nd \<Rightarrow> cells_of nd) \<union>
               (case c1 of None \<Rightarrow> {} | Some nd \<Rightarrow> cells_of nd) \<union>
               (case c2 of None \<Rightarrow> {} | Some nd \<Rightarrow> cells_of nd))"

definition branch_cells :: "MemoryTree option \<Rightarrow> nat set" where
  "branch_cells b = (case b of None \<Rightarrow> {} | Some nd \<Rightarrow> cells_of nd)"

fun unique_cells :: "nat \<Rightarrow> MemoryTree \<Rightarrow> bool" where
  "unique_cells h (MTree c c0 c1 c2) \<longleftrightarrow>
     (case c0 of None \<Rightarrow> True
      | Some nd \<Rightarrow> unique_cells h nd \<and> (if h = 0 then cell nd = c else c \<notin> cells_of nd)) \<and>
     (case c1 of None \<Rightarrow> True
      | Some nd \<Rightarrow> unique_cells h nd \<and> (if h = 1 then cell nd = c else c \<notin> cells_of nd)) \<and>
     (case c2 of None \<Rightarrow> True
      | Some nd \<Rightarrow> unique_cells h nd \<and> (if h = 2 then cell nd = c else c \<notin> cells_of nd)) \<and>
     branch_cells c0 \<inter> branch_cells c1 = {} \<and>
     branch_cells c0 \<inter> branch_cells c2 = {} \<and>
     branch_cells c1 \<inter> branch_cells c2 = {}"

text \<open>
  The three trees give different cells to different values, the cells they refer to are
  in the cell store, and no cell belongs to two trees.
\<close>

definition memory_inj :: "Memory \<Rightarrow> bool" where
  "memory_inj m \<longleftrightarrow>
     (\<forall>h<3. unique_cells h (roots m ! h) \<and> cells_of (roots m ! h) \<subseteq> {..<length (cells m)}) \<and>
     (\<forall>h<3. \<forall>h'<3. h \<noteq> h' \<longrightarrow> cells_of (roots m ! h) \<inter> cells_of (roots m ! h') = {})"

text \<open>
  Addresses.  \<open>address_of a k\<close>: the number \<open>a\<close> is well formed, has the head 0 and the
  value \<open>k\<close>.  \<open>cell_at m k c\<close>: the tree of \<open>m\<close> holds the cell \<open>c\<close> for the address \<open>k\<close>,
  that is for a number that is the address \<open>k\<close>.
\<close>

definition address_of :: "Number \<Rightarrow> nat \<Rightarrow> bool" where
  "address_of a k \<longleftrightarrow> wf_number a \<and> head a = 0 \<and> numeric_value a = int k"

definition cell_at :: "Memory \<Rightarrow> nat \<Rightarrow> nat \<Rightarrow> bool" where
  "cell_at m k c \<longleftrightarrow> (\<exists>a. address_of a k \<and> cell_of m a = Some c)"

text \<open>
  The memory while the program is loaded, when the addresses below \<open>k\<close> are the ones
  written so far: a cell that holds a value or a pointer to a next cell is the cell of an
  address below \<open>k\<close>, and the values held are well formed.
\<close>

definition cells_inv :: "nat \<Rightarrow> Memory \<Rightarrow> bool" where
  "cells_inv k m \<longleftrightarrow>
     memory_ok m \<and> memory_inj m \<and>
     (\<forall>c<length (cells m).
        (val (cells m ! c) \<noteq> None \<or> next_cell (cells m ! c) \<noteq> None \<longrightarrow> (\<exists>j<k. cell_at m j c)) \<and>
        (\<forall>v. val (cells m ! c) = Some v \<longrightarrow> wf_number v))"

text \<open>
  The loader with \<^verbatim>\<open>init\<close> at the address \<open>k\<close>: \<^verbatim>\<open>init\<close> points to the cell of its
  address, and \<^verbatim>\<open>prev\<close> and \<^verbatim>\<open>prevprev\<close>, when set, are the cells of the addresses
  \<open>k - 1\<close> and \<open>k - 2\<close> and hold values.
\<close>

definition loader_inv :: "nat \<Rightarrow> Loader \<Rightarrow> bool" where
  "loader_inv k ld \<longleftrightarrow>
     cells_inv k (ld_memory ld) \<and> address_of (ld_init ld) k \<and>
     (\<exists>q. memptr (ld_init ld) = Some q \<and> cell_of (ld_memory ld) (ld_init ld) = Some q) \<and>
     (case ld_prev ld of
        None \<Rightarrow> ld_prevprev ld = None
      | Some c \<Rightarrow> 1 \<le> k \<and> cell_at (ld_memory ld) (k - 1) c \<and> val (cells (ld_memory ld) ! c) \<noteq> None) \<and>
     (case ld_prevprev ld of
        None \<Rightarrow> True
      | Some c \<Rightarrow> 2 \<le> k \<and> cell_at (ld_memory ld) (k - 2) c \<and> val (cells (ld_memory ld) ! c) \<noteq> None)"

text \<open>
  A round after the end of the file as the specification describes it, from the loader
  state \<open>ld\<close> to \<open>ld'\<close>, with \<^verbatim>\<open>init\<close> at the address \<open>k\<close>.  Before the round,
  \<^verbatim>\<open>prevprev\<close> and \<^verbatim>\<open>prev\<close> are the cells \<open>p2\<close> and \<open>p1\<close> of the addresses \<open>k - 2\<close> and
  \<open>k - 1\<close> and hold the values \<open>v2\<close> and \<open>v1\<close>; \<^verbatim>\<open>init\<close> points to the cell \<open>q\<close> of its
  address \<open>k\<close>, which holds no value; and every cell that holds a value is the cell of an
  address below \<open>k\<close>.  The round stores \<open>x\<close>, the first result of the crazy operation on
  clones of \<open>v1\<close> and \<open>v2\<close> with its Unicode cache updated, in the cell \<open>q\<close> and changes
  the value of no other cell; \<open>q\<close> stays the cell of the address \<open>k\<close>; \<open>p1\<close> and \<open>q\<close>
  become \<^verbatim>\<open>prevprev\<close> and \<^verbatim>\<open>prev\<close>; \<^verbatim>\<open>init\<close> becomes the address \<open>k + 1\<close> and points
  to the cell of that address; and the number the round would keep in
  \<^verbatim>\<open>initial_values\<close> has the trits of \<open>x\<close>.
\<close>

definition synthetic_round :: "nat \<Rightarrow> Loader \<Rightarrow> Loader \<Rightarrow> bool" where
  "synthetic_round k ld ld' \<longleftrightarrow>
     (\<exists>q p1 p2 v1 v2 x.
        2 \<le> k \<and>
        ld_prevprev ld = Some p2 \<and> cell_at (ld_memory ld) (k - 2) p2 \<and>
        val (cells (ld_memory ld) ! p2) = Some v2 \<and>
        ld_prev ld = Some p1 \<and> cell_at (ld_memory ld) (k - 1) p1 \<and>
        val (cells (ld_memory ld) ! p1) = Some v1 \<and>
        address_of (ld_init ld) k \<and> memptr (ld_init ld) = Some q \<and>
        cell_of (ld_memory ld) (ld_init ld) = Some q \<and> q < length (cells (ld_memory ld)) \<and>
        val (cells (ld_memory ld) ! q) = None \<and>
        (\<forall>c<length (cells (ld_memory ld)).
           val (cells (ld_memory ld) ! c) \<noteq> None \<longrightarrow> (\<exists>j<k. cell_at (ld_memory ld) j c)) \<and>
        x = update_unicode (fst (opr (clone_number v1) (clone_number v2))) \<and>
        val (cells (ld_memory ld') ! q) = Some x \<and>
        (\<forall>c<length (cells (ld_memory ld)).
           c \<noteq> q \<longrightarrow> val (cells (ld_memory ld') ! c) = val (cells (ld_memory ld) ! c)) \<and>
        cell_of (ld_memory ld') (ld_init ld) = Some q \<and>
        ld_prevprev ld' = Some p1 \<and> ld_prev ld' = Some q \<and>
        address_of (ld_init ld') (Suc k) \<and>
        memptr (ld_init ld') \<noteq> None \<and>
        memptr (ld_init ld') = cell_of (ld_memory ld') (ld_init ld') \<and>
        head (retained ld) = head x \<and> tail (retained ld) = tail x)"

text \<open>Reading results of the interpreter.\<close>

definition result_state :: "result \<Rightarrow> State option" where
  "result_state r = (case r of Continue s \<Rightarrow> Some s | Halt s \<Rightarrow> Some s | Fail e \<Rightarrow> None)"

definition running :: "result \<Rightarrow> bool" where
  "running r = (case r of Continue s \<Rightarrow> True | Halt s \<Rightarrow> False | Fail e \<Rightarrow> False)"

text \<open>The instruction code a round of the loop decodes: \<^verbatim>\<open>(unicode + pos) % 94\<close>.\<close>

definition decoded_instr :: "State \<Rightarrow> int" where
  "decoded_instr st = (unicode (snd (fetch st)) + st_pos st) mod 94"

text \<open>
  One outcome of the draws \<^verbatim>\<open>main\<close> makes at its start: rotation width 10, slack 0,
  step 4, deterministic growth.
\<close>

definition example_params :: Params where
  "example_params =
     \<lparr>p_rotwidth = 10, p_growth_slack = 0, p_growth_step = 4, p_growth_prob = 10000,
      p_det_growth = True, p_rand = (\<lambda>k. 0)\<rparr>"

text \<open>
  A program of 51 characters: fifty \<^verbatim>\<open>nop\<close>s at the addresses 0 to 49 and a \<^verbatim>\<open>jmp\<close> at
  address 50.  The \<^verbatim>\<open>jmp\<close> reads its own character 48 as the target, so the next round
  runs the cell at address 49 once more, after \<^verbatim>\<open>xlat2\<close> has changed it.
\<close>

definition jump_back_program :: "byte list" where
  "jump_back_program =
     [0x44, 0x43, 0x42, 0x41, 0x40, 0x3F, 0x3E, 0x3D, 0x3C, 0x3B, 0x3A, 0x39,
      0x38, 0x37, 0x36, 0x35, 0x34, 0x33, 0x32, 0x31, 0x30, 0x2F, 0x2E, 0x2D,
      0x2C, 0x2B, 0x2A, 0x29, 0x28, 0x27, 0x26, 0x25, 0x24, 0x23, 0x22, 0x21,
      0x7E, 0x7D, 0x7C, 0x7B, 0x7A, 0x79, 0x78, 0x77, 0x76, 0x75, 0x74, 0x73,
      0x72, 0x71, 0x30]"

section \<open>Crazy operation: the table is indexed by the trit of \<^verbatim>\<open>d\<close> first\<close>

lemma opr_trit_table: "a < 3 \<Longrightarrow> d < 3 \<Longrightarrow> opr_trit a d = spec_table ! d ! a"
proof -
  assume "a < 3" "d < 3"
  then have "a \<in> {0, 1, 2}" "d \<in> {0, 1, 2}" by auto
  then show ?thesis
    by (auto simp: opr_trit_def OPR_def spec_table_def)
qed

lemma length_opr_loop: "length (opr_loop ha hb xs ys) = max (length xs) (length ys)"
  by (induction ha hb xs ys rule: opr_loop.induct) auto

lemma nth_opr_loop:
  "i < max (length xs) (length ys) \<Longrightarrow>
   opr_loop ha hb xs ys ! i =
     opr_trit (if i < length xs then xs ! i else ha) (if i < length ys then ys ! i else hb)"
proof (induction ha hb xs ys arbitrary: i rule: opr_loop.induct)
  case (1 ha hb)
  then show ?case by simp
next
  case (2 ha hb x xs)
  then show ?case by (cases i) auto
next
  case (3 ha hb y ys)
  then show ?case by (cases i) auto
next
  case (4 ha hb x xs y ys)
  then show ?case by (cases i) auto
qed

lemma trit_at_less: "wf_number n \<Longrightarrow> trit_at n i < 3"
  by (auto simp: wf_number_def trit_at_def list_all_length)

text \<open>
  Claim C1, as the code has it.  For all well-formed numbers \<open>a\<close> and \<open>d\<close>, \<^verbatim>\<open>opr\<close>
  leaves the same tail and the same head in both; the tail is as long as the longer of
  the two; the trit at each position \<open>i\<close> is the entry of the table in the row of the
  trit of \<open>d\<close> and the column of the trit of \<open>a\<close> (the narrower operand extended with its
  head); the new head is that entry for the two heads; both operands are value-equal
  afterwards and both caches are invalidated.  In particular the trits \<open>a = 0\<close>, \<open>d = 1\<close>
  give 1 and the trits \<open>a = 1\<close>, \<open>d = 0\<close> give 0.
\<close>

theorem opr_rows_by_d:
  assumes "wf_number a" and "wf_number d"
  shows "case opr a d of (a', d') \<Rightarrow>
           tail a' = tail d' \<and> head a' = head d' \<and>
           length (tail a') = max (length (tail a)) (length (tail d)) \<and>
           (\<forall>i < length (tail a'). tail a' ! i = spec_table ! trit_at d i ! trit_at a i) \<and>
           head a' = spec_table ! head d ! head a \<and>
           value_eq a' d' \<and>
           memptr a' = None \<and> unicode a' = - 2 \<and> memptr d' = None \<and> unicode d' = - 2 \<and>
           opr_trit 0 1 = 1 \<and> opr_trit 1 0 = 0"
proof -
  have h: "head a < 3" "head d < 3" using assms by (auto simp: wf_number_def)
  have "opr_loop (head a) (head d) (tail a) (tail d) ! i = spec_table ! trit_at d i ! trit_at a i"
    if "i < max (length (tail a)) (length (tail d))" for i
  proof -
    have "opr_loop (head a) (head d) (tail a) (tail d) ! i = opr_trit (trit_at a i) (trit_at d i)"
      using that by (simp add: nth_opr_loop trit_at_def)
    also have "\<dots> = spec_table ! trit_at d i ! trit_at a i"
      by (rule opr_trit_table) (use assms in \<open>auto intro: trit_at_less\<close>)
    finally show ?thesis .
  qed
  moreover have "opr_trit 0 1 = 1 \<and> opr_trit 1 0 = 0"
    by (simp add: opr_trit_def OPR_def)
  ultimately show ?thesis
    using h by (simp add: opr_def Let_def length_opr_loop opr_trit_table value_eq_def)
qed

theorem opr_rows_by_d_witness:
  "wf_number \<lparr>head = 1, tail = [0, 2], memptr = None, unicode = - 2\<rparr> \<and>
   wf_number \<lparr>head = 0, tail = [1], memptr = Some 4, unicode = 1\<rparr> \<and>
   opr \<lparr>head = 1, tail = [0, 2], memptr = None, unicode = - 2\<rparr>
       \<lparr>head = 0, tail = [1], memptr = Some 4, unicode = 1\<rparr> =
     (\<lparr>head = 0, tail = [1, 0], memptr = None, unicode = - 2\<rparr>,
      \<lparr>head = 0, tail = [1, 0], memptr = None, unicode = - 2\<rparr>)"
  using opr_rows_by_d [of "\<lparr>head = 1, tail = [0, 2], memptr = None, unicode = - 2\<rparr>"
                          "\<lparr>head = 0, tail = [1], memptr = Some 4, unicode = 1\<rparr>"]
  by (simp add: wf_number_def opr_def Let_def opr_trit_def OPR_def)

text \<open>
  The claim as stated fails: it reads the table with the trit of \<open>a\<close> as the row, which
  gives 0 for \<open>a = 0\<close>, \<open>d = 1\<close>, where \<^verbatim>\<open>opr\<close> writes 1.
\<close>

theorem opr_not_rows_by_a:
  "tail (fst (opr \<lparr>head = 0, tail = [0], memptr = None, unicode = 0\<rparr>
                  \<lparr>head = 0, tail = [1], memptr = None, unicode = 1\<rparr>)) = [1] \<and>
   spec_table ! 0 ! 1 = 0"
  by (simp add: opr_def Let_def opr_trit_def OPR_def spec_table_def)

section \<open>Rotation keeps the trit it takes from position 0\<close>

lemma rotate_pad_eq: "rotate_pad h w ts = ts @ replicate (w - length ts) h"
proof (induction h w ts rule: rotate_pad.induct)
  case (1 h w ts)
  show ?case
  proof (cases "length ts < w")
    case True
    then have "w - length ts = Suc (w - Suc (length ts))" by simp
    with True 1 show ?thesis
      by (subst rotate_pad.simps) (simp add: replicate_append_same)
  next
    case False
    then show ?thesis by (subst rotate_pad.simps) simp
  qed
qed

text \<open>
  Claim C3, as the code has it.  \<^verbatim>\<open>rotate_r\<close> pads the most significant end of the tail
  with the head until the width is at least \<open>W\<close>, then moves the least significant trit
  from position 0 to the most significant position: the width stays what the padding
  made it, the trit taken from position 0 is the last trit of the new tail, the head is
  unchanged and both caches are invalidated.
\<close>

theorem rotate_r_cyclic:
  assumes "tail n \<noteq> []"
  shows "tail (rotate_r n W) =
           tl (tail n @ replicate (W - length (tail n)) (head n)) @ [hd (tail n)] \<and>
         length (tail (rotate_r n W)) = max (length (tail n)) W \<and>
         last (tail (rotate_r n W)) = hd (tail n) \<and>
         head (rotate_r n W) = head n \<and>
         memptr (rotate_r n W) = None \<and> unicode (rotate_r n W) = - 2"
proof -
  obtain t ts where ts: "tail n = t # ts" using assms by (cases "tail n") auto
  show ?thesis
    by (auto simp: rotate_r_def Let_def rotate_pad_eq ts)
qed

theorem rotate_r_cyclic_witness:
  "tail \<lparr>head = 0, tail = [1, 2], memptr = Some 5, unicode = 7\<rparr> \<noteq> [] \<and>
   tail (rotate_r \<lparr>head = 0, tail = [1, 2], memptr = Some 5, unicode = 7\<rparr> 4) = [2, 0, 0, 1]"
  using rotate_r_cyclic [of "\<lparr>head = 0, tail = [1, 2], memptr = Some 5, unicode = 7\<rparr>" 4]
  by (simp add: numeral_eq_Suc)

text \<open>
  The claim as stated fails: on the two trits 1, 0 with target width 2 the trit 1 taken
  from position 0 is back at the top, and the tail is not the one the specification
  describes.
\<close>

theorem rotate_r_reinserts:
  "tail (rotate_r \<lparr>head = 0, tail = [1, 0], memptr = None, unicode = 1\<rparr> 2) = [0, 1] \<and>
   tail (rotate_r \<lparr>head = 0, tail = [1, 0], memptr = None, unicode = 1\<rparr> 2)
     \<noteq> spec_rotate_tail \<lparr>head = 0, tail = [1, 0], memptr = None, unicode = 1\<rparr> 2"
  by (simp add: rotate_r_def Let_def rotate_pad_eq spec_rotate_tail_def)

section \<open>The UTF-8 decoder does not bound the code point\<close>

lemma uint_ne_EOF: "uint (b :: byte) \<noteq> - 1"
proof -
  have "0 \<le> uint b" by simp
  then show ?thesis by linarith
qed

lemma read_fails_iff:
  "(\<exists>e. read_utf8_character inp = Inl e) \<longleftrightarrow> \<not> structurally_valid inp"
proof (cases inp)
  case Nil
  then show ?thesis
    by (simp add: read_utf8_character_def getchar_def structurally_valid_def)
next
  case (Cons b bs)
  note inp = this
  have "sequence_length b = 1 \<or> sequence_length b = 2 \<or> sequence_length b = 3
      \<or> sequence_length b = 4 \<or> sequence_length b = 0"
    by (simp add: sequence_length_def)
  then consider (one) "sequence_length b = 1" | (two) "sequence_length b = 2"
    | (three) "sequence_length b = 3" | (four) "sequence_length b = 4" | (bad) "sequence_length b = 0"
    by auto
  then show ?thesis
  proof cases
    case one
    then show ?thesis
      by (auto simp: inp read_utf8_character_def getchar_def structurally_valid_def
            sequence_length_def uint_ne_EOF EOF_def split: if_splits)
  next
    case two
    then have l: "uint b AND 0x80 \<noteq> 0" "uint b AND 0xE0 = 0xC0"
      by (auto simp: sequence_length_def split: if_splits)
    show ?thesis
      by (cases bs)
         (auto simp: inp l two read_utf8_character_def getchar_def structurally_valid_def
            uint_ne_EOF is_continuation_def EOF_def)
  next
    case three
    then have l: "uint b AND 0x80 \<noteq> 0" "uint b AND 0xE0 \<noteq> 0xC0" "uint b AND 0xF0 = 0xE0"
      by (auto simp: sequence_length_def split: if_splits)
    have t: "take 2 (x # y # zs) = [x, y]" for x y :: byte and zs
      by (simp add: numeral_2_eq_2)
    show ?thesis
    proof (cases bs)
      case Nil
      then show ?thesis
        by (auto simp: inp l three read_utf8_character_def getchar_def structurally_valid_def uint_ne_EOF EOF_def)
    next
      case (Cons b2 bs2)
      then show ?thesis
        by (cases bs2)
           (auto simp: inp l three t read_utf8_character_def getchar_def structurally_valid_def
              uint_ne_EOF is_continuation_def EOF_def)
    qed
  next
    case four
    then have l: "uint b AND 0x80 \<noteq> 0" "uint b AND 0xE0 \<noteq> 0xC0" "uint b AND 0xF0 \<noteq> 0xE0"
        "uint b AND 0xF8 = 0xF0"
      by (auto simp: sequence_length_def split: if_splits)
    have t: "take 3 (x # y # z # zs) = [x, y, z]" for x y z :: byte and zs
      by (simp add: numeral_3_eq_3)
    show ?thesis
    proof (cases bs)
      case Nil
      then show ?thesis
        by (auto simp: inp l four read_utf8_character_def getchar_def structurally_valid_def uint_ne_EOF EOF_def)
    next
      case (Cons b2 bs2)
      note bs = this
      show ?thesis
      proof (cases bs2)
        case Nil
        then show ?thesis
          by (auto simp: inp bs l four read_utf8_character_def getchar_def structurally_valid_def
              uint_ne_EOF is_continuation_def EOF_def)
      next
        case (Cons b3 bs3)
        then show ?thesis
          by (cases bs3)
             (auto simp: inp bs l four t read_utf8_character_def getchar_def structurally_valid_def
                uint_ne_EOF is_continuation_def EOF_def)
      qed
    qed
  next
    case bad
    then have l: "uint b AND 0x80 \<noteq> 0" "uint b AND 0xE0 \<noteq> 0xC0" "uint b AND 0xF0 \<noteq> 0xE0"
        "uint b AND 0xF8 \<noteq> 0xF0"
      by (auto simp: sequence_length_def split: if_splits)
    show ?thesis
      by (simp add: inp l bad read_utf8_character_def getchar_def structurally_valid_def uint_ne_EOF EOF_def)
  qed
qed

lemma or_le_plus_int: "0 \<le> x \<Longrightarrow> 0 \<le> y \<Longrightarrow> x OR y \<le> x + (y::int)"
  using plus_and_or [of x y] and_nonnegative_int_iff [of x y] by linarith

lemma or_bounds:
  "0 \<le> x \<and> x \<le> a \<Longrightarrow> 0 \<le> y \<and> y \<le> b \<Longrightarrow> 0 \<le> x OR y \<and> x OR y \<le> a + (b::int)"
  using or_le_plus_int [of x y] by simp

lemma push_and_bounds:
  "0 \<le> (k::int) \<Longrightarrow> 0 \<le> push_bit n (x AND k) \<and> push_bit n (x AND k) \<le> k * 2 ^ n"
  by (simp add: push_bit_eq_mult AND_upper2 del: push_bit_and)

lemma and_mask_bounds: "0 \<le> (k::int) \<Longrightarrow> 0 \<le> x AND k \<and> x AND k \<le> k"
  by (simp add: AND_upper2)

lemma decode2_bound:
  "0 \<le> push_bit 6 (a AND 0x1F) OR (b AND 0x3F) \<and>
   push_bit 6 (a AND 0x1F) OR (b AND 0x3F) \<le> (0x7FF :: int)"
proof -
  have "0 \<le> push_bit 6 (a AND 0x1F) OR (b AND 0x3F) \<and>
        push_bit 6 (a AND 0x1F) OR (b AND 0x3F) \<le> 0x1F * 2 ^ 6 + (0x3F :: int)"
    by (intro or_bounds push_and_bounds and_mask_bounds) simp_all
  then show ?thesis by simp
qed

lemma decode3_bound:
  "0 \<le> push_bit 12 (a AND 0x0F) OR push_bit 6 (b AND 0x3F) OR (c AND 0x3F) \<and>
   push_bit 12 (a AND 0x0F) OR push_bit 6 (b AND 0x3F) OR (c AND 0x3F) \<le> (0xFFFF :: int)"
proof -
  have "0 \<le> push_bit 12 (a AND 0x0F) OR push_bit 6 (b AND 0x3F) OR (c AND 0x3F) \<and>
        push_bit 12 (a AND 0x0F) OR push_bit 6 (b AND 0x3F) OR (c AND 0x3F)
          \<le> 0x0F * 2 ^ 12 + (0x3F * 2 ^ 6 + (0x3F :: int))"
    by (intro or_bounds push_and_bounds and_mask_bounds) simp_all
  then show ?thesis by simp
qed

lemma decode4_bound:
  "0 \<le> push_bit 18 (a AND 0x07) OR push_bit 12 (b AND 0x3F) OR push_bit 6 (c AND 0x3F) OR (d AND 0x3F) \<and>
   push_bit 18 (a AND 0x07) OR push_bit 12 (b AND 0x3F) OR push_bit 6 (c AND 0x3F) OR (d AND 0x3F)
     \<le> (0x1FFFFF :: int)"
proof -
  have "0 \<le> push_bit 18 (a AND 0x07) OR push_bit 12 (b AND 0x3F) OR push_bit 6 (c AND 0x3F) OR (d AND 0x3F) \<and>
        push_bit 18 (a AND 0x07) OR push_bit 12 (b AND 0x3F) OR push_bit 6 (c AND 0x3F) OR (d AND 0x3F)
          \<le> 0x07 * 2 ^ 18 + (0x3F * 2 ^ 12 + (0x3F * 2 ^ 6 + (0x3F :: int)))"
    by (intro or_bounds push_and_bounds and_mask_bounds) simp_all
  then show ?thesis by simp
qed

lemma uint_byte_bound: "0 \<le> uint (b::byte) \<and> uint b \<le> 0x1FFFFF"
proof -
  have "uint b < 2 ^ 8" by (rule order_less_le_trans [OF uint_lt2p]) simp
  then show ?thesis by simp
qed

lemma read_bound:
  assumes "read_utf8_character inp = Inr (v, rest)"
  shows "- 1 \<le> v \<and> v \<le> 0x1FFFFF"
proof -
  have d2: "- 1 \<le> push_bit 6 (a AND 0x1F) OR (b AND 0x3F) \<and>
            push_bit 6 (a AND 0x1F) OR (b AND 0x3F) \<le> (0x1FFFFF :: int)" for a b
    using decode2_bound [of a b] by linarith
  have d3: "- 1 \<le> push_bit 12 (a AND 0x0F) OR push_bit 6 (b AND 0x3F) OR (c AND 0x3F) \<and>
            push_bit 12 (a AND 0x0F) OR push_bit 6 (b AND 0x3F) OR (c AND 0x3F) \<le> (0x1FFFFF :: int)"
    for a b c
    using decode3_bound [of a b c] by linarith
  have d4: "- 1 \<le> push_bit 18 (a AND 0x07) OR push_bit 12 (b AND 0x3F) OR push_bit 6 (c AND 0x3F) OR (d AND 0x3F)" for a b c d :: int
    using decode4_bound [of a b c d] by linarith
  have u: "- 1 \<le> uint b \<and> uint b \<le> 0x1FFFFF" for b :: byte
    using uint_byte_bound [of b] by linarith
  show ?thesis
    using assms
    by (auto simp: read_utf8_character_def getchar_def EOF_def d2 d3 d4 u decode4_bound
          simp del: push_bit_and split: list.splits if_splits)
qed


text \<open>
  Claim C10.  \<^verbatim>\<open>read_utf8_character\<close> fails exactly on structurally invalid input (a
  lead byte outside the four patterns, or a missing or malformed continuation byte),
  always with the diagnostic of invalid UTF-8; what it returns lies between \<open>-1\<close> (end of
  input) and \<open>0x1FFFFF\<close>; the well-formed bytes F4 90 80 80 are decoded to \<open>0x110000\<close>
  and F7 BF BF BF to \<open>0x1FFFFF\<close> without error; and \<^verbatim>\<open>print_utf8\<close> refuses every value
  from \<open>0x110000\<close> on.
\<close>

theorem read_utf8_no_upper_bound:
  "((\<exists>e. read_utf8_character inp = Inl e) \<longleftrightarrow> \<not> structurally_valid inp) \<and>
   (\<forall>e. read_utf8_character inp = Inl e \<longrightarrow> e = InvalidUtf8) \<and>
   (\<forall>v rest. read_utf8_character inp = Inr (v, rest) \<longrightarrow> - 1 \<le> v \<and> v \<le> 0x1FFFFF) \<and>
   structurally_valid [0xF4, 0x90, 0x80, 0x80] \<and>
   read_utf8_character [0xF4, 0x90, 0x80, 0x80] = Inr (0x110000, []) \<and>
   read_utf8_character [0xF7, 0xBF, 0xBF, 0xBF] = Inr (0x1FFFFF, []) \<and>
   (\<forall>v \<ge> 0x110000. print_utf8 v = Inl InvalidCodepoint)"
proof -
  have "e = InvalidUtf8" if "read_utf8_character inp = Inl e" for e
    using that
    by (auto simp: read_utf8_character_def getchar_def split: list.splits if_splits)
  moreover have "structurally_valid [0xF4, 0x90, 0x80, 0x80]"
    by (simp add: structurally_valid_def sequence_length_def is_continuation_def)
  moreover have "read_utf8_character [0xF4, 0x90, 0x80, 0x80] = Inr (0x110000, [])"
    by (simp add: read_utf8_character_def getchar_def EOF_def)
  moreover have "read_utf8_character [0xF7, 0xBF, 0xBF, 0xBF] = Inr (0x1FFFFF, [])"
    by (simp add: read_utf8_character_def getchar_def EOF_def)
  moreover have "print_utf8 v = Inl InvalidCodepoint" if "v \<ge> 0x110000" for v
    using that by (simp add: print_utf8_def)
  ultimately show ?thesis
    using read_fails_iff [of inp] read_bound [of inp] by blast
qed

theorem read_utf8_no_upper_bound_witness:
  "\<not> structurally_valid [0xE2, 0x82] \<and> read_utf8_character [0xE2, 0x82] = Inl InvalidUtf8 \<and>
   structurally_valid [0xF4, 0x90, 0x80, 0x80] \<and>
   read_utf8_character [0xF4, 0x90, 0x80, 0x80] = Inr (0x110000, []) \<and>
   (0x110000 :: int) \<ge> 0x110000 \<and> print_utf8 0x110000 = Inl InvalidCodepoint"
  using read_utf8_no_upper_bound [of "[0xE2, 0x82]"]
  by (simp add: structurally_valid_def sequence_length_def is_continuation_def
        read_utf8_character_def getchar_def EOF_def)

section \<open>Modulo\<close>

lemma poly3_sum: "poly3 h ts = (\<Sum>i<length ts. (int (ts ! i) - h) * 3 ^ i)"
proof (induction ts)
  case Nil
  then show ?case by simp
next
  case (Cons t ts)
  have "(\<Sum>i<length (t # ts). (int ((t # ts) ! i) - h) * 3 ^ i) =
        (int t - h) + (\<Sum>i<length ts. (int (ts ! i) - h) * 3 ^ Suc i)"
    by (simp add: sum.lessThan_Suc_shift del: sum.lessThan_Suc)
  also have "(\<Sum>i<length ts. (int (ts ! i) - h) * 3 ^ Suc i) = 3 * (\<Sum>i<length ts. (int (ts ! i) - h) * 3 ^ i)"
    by (simp add: sum_distrib_left mult_ac)
  finally show ?case using Cons by simp
qed

lemma poly3_append_heads: "poly3 (int h) (ts @ replicate k h) = poly3 (int h) ts"
proof (induction ts)
  case Nil
  show ?case by (induction k) auto
next
  case (Cons t ts)
  then show ?case by simp
qed

lemma mod_loop_cong:
  "mod_loop m h r p ts mod m = (r + p * poly3 (int h) ts) mod m"
proof (induction ts arbitrary: r p)
  case Nil
  then show ?case by simp
next
  case (Cons t ts)
  let ?r2 = "(r + p * (int t + (m - int h))) mod m" and ?p2 = "(p * 3) mod m"
  have "mod_loop m h r p (t # ts) mod m = (?r2 + ?p2 * poly3 (int h) ts) mod m"
    using Cons.IH [of ?r2 ?p2] by (simp add: Let_def)
  also have "\<dots> = ((r + p * (int t + (m - int h))) + (p * 3) * poly3 (int h) ts) mod m"
    by (intro mod_add_cong mod_mult_cong refl) simp_all
  also have "(r + p * (int t + (m - int h))) + (p * 3) * poly3 (int h) ts
             = (r + p * poly3 (int h) (t # ts)) + p * m"
    by (simp add: algebra_simps)
  also have "((r + p * poly3 (int h) (t # ts)) + p * m) mod m = (r + p * poly3 (int h) (t # ts)) mod m"
    by simp
  finally show ?case .
qed

lemma mod_loop_range:
  "0 < m \<Longrightarrow> ts \<noteq> [] \<Longrightarrow> 0 \<le> mod_loop m h r p ts \<and> mod_loop m h r p ts < m"
proof (induction ts arbitrary: r p)
  case Nil
  then show ?case by simp
next
  case (Cons t ts)
  show ?case
  proof (cases "ts = []")
    case True
    with Cons.prems show ?thesis by (simp add: Let_def)
  next
    case False
    with Cons show ?thesis by (simp add: Let_def)
  qed
qed

lemma mod_number_formula:
  assumes "0 < m" and "tail n \<noteq> []"
  shows "mod_number n m = mod_formula n m"
proof -
  have "mod_number n m = mod_number n m mod m"
    using mod_loop_range [OF assms, of "head n"] by (simp add: mod_number_def)
  also have "\<dots> = ((29524 mod m) * int (head n) + 1 * poly3 (int (head n)) (tail n)) mod m"
    unfolding mod_number_def by (rule mod_loop_cong)
  also have "\<dots> = (29524 * int (head n) + poly3 (int (head n)) (tail n)) mod m"
    by (intro mod_add_cong mod_mult_cong refl) simp_all
  also have "\<dots> = (poly3 (int (head n)) (tail n) + 29524 * int (head n)) mod m"
    by (simp add: add.commute)
  finally show ?thesis by (simp add: mod_formula_def poly3_sum)
qed

lemma strip_head_decomp: "\<exists>k. ts = strip_head h ts @ replicate k h"
proof -
  let ?P = "\<lambda>t. t = h"
  have "rev ts = takeWhile ?P (rev ts) @ dropWhile ?P (rev ts)" by simp
  then have "ts = rev (dropWhile ?P (rev ts)) @ rev (takeWhile ?P (rev ts))"
    by (metis rev_append rev_rev_ident)
  moreover have "takeWhile ?P (rev ts) = replicate (length (takeWhile ?P (rev ts))) h"
    by (metis (mono_tags, lifting) replicate_length_same set_takeWhileD)
  ultimately show ?thesis
    unfolding strip_head_def by (metis rev_replicate)
qed

lemma poly3_strip: "poly3 (int h) ts = poly3 (int h) (strip_head h ts)"
proof -
  obtain k where "ts = strip_head h ts @ replicate k h" using strip_head_decomp by blast
  then show ?thesis using poly3_append_heads by metis
qed

lemma mod_loop_fits_ok:
  assumes "2 \<le> m" "m \<le> 29524" "h < 3" "list_all (\<lambda>t. t < 3) ts"
    "0 \<le> r" "r \<le> 2 * 29524" "0 \<le> p" "p < m"
  shows "mod_loop_fits m h r p ts"
  using assms
proof (induction ts arbitrary: r p)
  case Nil
  then show ?case by simp
next
  case (Cons t ts)
  let ?f = "int t + (m - int h)"
  have f: "0 \<le> ?f" "?f \<le> 29526" using Cons.prems by auto
  have "p * ?f \<le> 29524 * 29526"
    using f Cons.prems by (intro mult_mono) auto
  moreover have "0 \<le> p * ?f"
    using f Cons.prems by simp
  ultimately have q: "0 \<le> p * ?f" "p * ?f \<le> 871725624"
    by simp_all
  have r1: "0 \<le> r + p * ?f" "r + p * ?f < 2147483648"
    using q Cons.prems by linarith+
  have p1: "0 \<le> p * 3" "p * 3 < 2147483648"
    using Cons.prems by linarith+
  have ih: "mod_loop_fits m h ((r + p * ?f) mod m) ((p * 3) mod m) ts"
  proof (rule Cons.IH)
    have "(r + p * ?f) mod m < m" using Cons.prems by simp
    then show "(r + p * ?f) mod m \<le> 2 * 29524" using Cons.prems by linarith
  qed (use Cons.prems in auto)
  have "- 2147483648 \<le> r + p * ?f" "- 2147483648 \<le> p * 3"
    using r1 p1 by linarith+
  with r1 p1 ih show ?case
    unfolding mod_loop_fits.simps Let_def by simp
qed

text \<open>
  Claim C7.  For well-formed numbers (width at least 1) and \<open>2 \<le> m \<le> 29524\<close>, \<^verbatim>\<open>mod\<close>
  returns the value of the formula, the result lies in \<open>[0, m)\<close>, two value-equal numbers
  give the same result whatever their widths, and no step of the computation leaves the
  range of \<^verbatim>\<open>int\<close>.  The moduli 6 and 564 of the callers are in the range.
\<close>

theorem mod_number_correct:
  assumes "wf_number n" and "wf_number n'" and "value_eq n n'" and "2 \<le> m" and "m \<le> 29524"
  shows "mod_number n m = mod_formula n m \<and>
         0 \<le> mod_number n m \<and> mod_number n m < m \<and>
         mod_number n' m = mod_number n m \<and>
         mod_loop_fits m (head n) ((29524 mod m) * int (head n)) 1 (tail n)"
proof -
  have m: "0 < m" using assms by simp
  have t: "tail n \<noteq> []" "tail n' \<noteq> []" using assms by (auto simp: wf_number_def)
  have 1: "mod_number n m = mod_formula n m" by (rule mod_number_formula [OF m t(1)])
  have 2: "0 \<le> mod_number n m \<and> mod_number n m < m"
    unfolding mod_number_def by (rule mod_loop_range [OF m t(1)])
  have hd: "head n = head n'"
    and st: "strip_head (head n) (tail n) = strip_head (head n') (tail n')"
    using assms(3) by (auto simp: value_eq_def)
  have "poly3 (int (head n)) (tail n) = poly3 (int (head n)) (strip_head (head n) (tail n))"
    by (rule poly3_strip)
  also have "\<dots> = poly3 (int (head n')) (strip_head (head n') (tail n'))"
    using st hd by metis
  also have "\<dots> = poly3 (int (head n')) (tail n')"
    by (rule poly3_strip [symmetric])
  finally have "poly3 (int (head n)) (tail n) = poly3 (int (head n')) (tail n')" .
  then have 3: "mod_number n' m = mod_number n m"
    using hd mod_number_formula [OF m t(1)] mod_number_formula [OF m t(2)]
    by (simp add: mod_formula_def flip: poly3_sum)
  have "(29524 mod m) * int (head n) \<le> 29524 * 2"
    using assms by (intro mult_mono) (auto simp: wf_number_def intro: zmod_le_nonneg_dividend)
  then have 4: "mod_loop_fits m (head n) ((29524 mod m) * int (head n)) 1 (tail n)"
    using assms by (intro mod_loop_fits_ok) (auto simp: wf_number_def)
  from 1 2 3 4 show ?thesis by simp
qed

theorem mod_number_correct_witness:
  "wf_number \<lparr>head = 2, tail = [1, 0], memptr = None, unicode = - 1\<rparr> \<and>
   wf_number \<lparr>head = 2, tail = [1, 0, 2, 2], memptr = None, unicode = - 1\<rparr> \<and>
   value_eq \<lparr>head = 2, tail = [1, 0], memptr = None, unicode = - 1\<rparr>
            \<lparr>head = 2, tail = [1, 0, 2, 2], memptr = None, unicode = - 1\<rparr> \<and>
   (2::int) \<le> 6 \<and> (6::int) \<le> 29524 \<and>
   mod_number \<lparr>head = 2, tail = [1, 0], memptr = None, unicode = - 1\<rparr> 6 = 1 \<and>
   mod_number \<lparr>head = 2, tail = [1, 0, 2, 2], memptr = None, unicode = - 1\<rparr> 6 = 1"
  using mod_number_correct [of "\<lparr>head = 2, tail = [1, 0], memptr = None, unicode = - 1\<rparr>"
      "\<lparr>head = 2, tail = [1, 0, 2, 2], memptr = None, unicode = - 1\<rparr>" 6]
  by (simp add: wf_number_def value_eq_def strip_head_def mod_number_def Let_def)

section \<open>Increment\<close>

lemma increment_pair:
  "(tail (increment cs n), head (increment cs n)) = inc_pair (tail n) (head n)"
  by (simp add: increment_def inc_pair_def Let_def split: option.splits prod.splits)

lemma stream_of_Cons_0: "stream_of (t # ts) h 0 = t"
  by (simp add: stream_of_def)

lemma stream_of_Cons_Suc: "stream_of (t # ts) h (Suc i) = stream_of ts h i"
  by (simp add: stream_of_def)

lemma all_less_Suc_shift: "(\<forall>j<Suc i. P j) \<longleftrightarrow> P 0 \<and> (\<forall>j<i. P (Suc j))"
  by (metis less_Suc_eq_0_disj)

lemma inc_stream_no_carry: "\<not> (\<forall>j<i. s j = 2) \<Longrightarrow> inc_stream s i = s i mod 3"
  by (auto simp: inc_stream_def)

lemma inc_stream_carry: "(\<forall>j<i. s j = 2) \<Longrightarrow> inc_stream s i = (s i + 1) mod 3"
  by (simp add: inc_stream_def)

lemma inc_pair_stream:
  assumes "h < 3" and "list_all (\<lambda>t. t < 3) ts"
  shows "stream_of (fst (inc_pair ts h)) (snd (inc_pair ts h)) i = inc_stream (stream_of ts h) i"
  using assms(2)
proof (induction ts arbitrary: i)
  case Nil
  show ?case
  proof (cases "h = 2")
    case True
    then show ?thesis by (simp add: inc_pair_def stream_of_def inc_stream_def)
  next
    case False
    with assms(1) show ?thesis
      by (cases i) (auto simp: inc_pair_def stream_of_def inc_stream_def)
  qed
next
  case (Cons t ts)
  then have t: "t < 3" and ts: "list_all (\<lambda>t. t < 3) ts" by auto
  show ?case
  proof (cases "t = 2")
    case False
    with t have p: "inc_pair (t # ts) h = ((t + 1) # ts, h)"
      by (auto simp: inc_pair_def Let_def)
    show ?thesis
    proof (cases i)
      case 0
      with t False show ?thesis by (simp add: p stream_of_Cons_0 inc_stream_def)
    next
      case (Suc i')
      have "\<not> (\<forall>j<Suc i'. stream_of (t # ts) h j = 2)"
        using False by (auto simp: all_less_Suc_shift stream_of_Cons_0)
      then have "inc_stream (stream_of (t # ts) h) (Suc i') = stream_of (t # ts) h (Suc i') mod 3"
        by (rule inc_stream_no_carry)
      moreover have "stream_of ts h i' < 3"
        using ts assms(1) by (auto simp: stream_of_def list_all_length)
      ultimately show ?thesis
        by (simp add: p Suc stream_of_Cons_Suc)
    qed
  next
    case True
    have p: "inc_pair (t # ts) h = (0 # fst (inc_pair ts h), snd (inc_pair ts h))"
      using True by (auto simp: inc_pair_def Let_def split: prod.splits)
    show ?thesis
    proof (cases i)
      case 0
      show ?thesis unfolding 0 p by (simp add: stream_of_Cons_0 inc_stream_def True)
    next
      case (Suc i')
      have "(\<forall>j<Suc i'. stream_of (t # ts) h j = 2) \<longleftrightarrow> (\<forall>j<i'. stream_of ts h j = 2)"
        using True by (simp add: all_less_Suc_shift stream_of_Cons_0 stream_of_Cons_Suc)
      then have "inc_stream (stream_of (t # ts) h) (Suc i') = inc_stream (stream_of ts h) i'"
        unfolding inc_stream_def stream_of_Cons_Suc by (simp only:)
      then show ?thesis
        using Cons.IH [OF ts, of i'] by (simp add: p Suc stream_of_Cons_Suc)
    qed
  qed
qed

lemma trit_at_stream: "trit_at n = stream_of (tail n) (head n)"
  by (rule ext) (simp add: trit_at_def stream_of_def)

lemma trit_at_increment:
  assumes "wf_number n"
  shows "trit_at (increment cs n) i = inc_stream (trit_at n) i"
proof -
  have "trit_at (increment cs n) i =
        stream_of (fst (inc_pair (tail n) (head n))) (snd (inc_pair (tail n) (head n))) i"
    using increment_pair [of cs n] by (metis trit_at_stream fst_conv snd_conv)
  then show ?thesis
    using inc_pair_stream [of "head n" "tail n" i] assms
    by (simp add: wf_number_def trit_at_stream)
qed


lemma window_value_stream: "window_value n W = stream_value (trit_at n) W"
  by (simp add: window_value_def stream_value_def)

lemma stream_value_Suc: "stream_value s (Suc W) = stream_value s W + s W * 3 ^ W"
  by (simp add: stream_value_def)

lemma inc_stream_carry_cases:
  assumes "\<And>i. s i < 3"
  shows "((\<forall>j<W. s j = 2) \<longrightarrow> stream_value s W + 1 = 3 ^ W \<and> stream_value (inc_stream s) W = 0) \<and>
         (\<not> (\<forall>j<W. s j = 2) \<longrightarrow>
            stream_value (inc_stream s) W = stream_value s W + 1 \<and> stream_value s W + 1 < 3 ^ W)"
proof (induction W)
  case 0
  show ?case by (simp add: stream_value_def)
next
  case (Suc W)
  have sW: "s W < 3" by (rule assms)
  show ?case
  proof (cases "\<forall>j<W. s j = 2")
    case True
    then have ih: "stream_value s W + 1 = 3 ^ W" "stream_value (inc_stream s) W = 0"
      using Suc by auto
    have inc: "inc_stream s W = (s W + 1) mod 3" using True by (rule inc_stream_carry)
    show ?thesis
    proof (cases "s W = 2")
      case two: True
      then have "\<forall>j<Suc W. s j = 2" using True by (simp add: less_Suc_eq)
      moreover have "stream_value s (Suc W) + 1 = 3 ^ Suc W"
        using ih two by (simp add: stream_value_Suc)
      moreover have "stream_value (inc_stream s) (Suc W) = 0"
        using ih inc two by (simp add: stream_value_Suc)
      ultimately show ?thesis by blast
    next
      case False
      then have nall: "\<not> (\<forall>j<Suc W. s j = 2)" by auto
      from False sW have c: "s W = 0 \<or> s W = 1" by auto
      have "stream_value (inc_stream s) (Suc W) = stream_value s (Suc W) + 1"
        using ih inc c by (auto simp: stream_value_Suc)
      moreover have "stream_value s (Suc W) + 1 < 3 ^ Suc W"
        using ih c by (auto simp: stream_value_Suc)
      ultimately show ?thesis using nall by blast
    qed
  next
    case False
    then have ih: "stream_value (inc_stream s) W = stream_value s W + 1" "stream_value s W + 1 < 3 ^ W"
      using Suc by auto
    have nall: "\<not> (\<forall>j<Suc W. s j = 2)" using False by (meson less_Suc_eq)
    have inc: "inc_stream s W = s W" using inc_stream_no_carry [OF False] sW by simp
    have "stream_value (inc_stream s) (Suc W) = stream_value s (Suc W) + 1"
      using ih inc by (simp add: stream_value_Suc)
    moreover have "stream_value s (Suc W) + 1 < 3 ^ Suc W"
    proof -
      have "s W * 3 ^ W \<le> 2 * 3 ^ W" using sW by (intro mult_right_mono) auto
      then show ?thesis using ih(2) unfolding stream_value_Suc power_Suc by linarith
    qed
    ultimately show ?thesis using nall by blast
  qed
qed

lemma stream_value_inc:
  assumes "\<And>i. s i < 3"
  shows "stream_value (inc_stream s) W = (stream_value s W + 1) mod 3 ^ W"
  using inc_stream_carry_cases [OF assms, of W] by (cases "\<forall>j<W. s j = 2") auto

lemma inc_stream_less: "inc_stream s i < 3"
  by (simp add: inc_stream_def)

lemma stream_value_inc_inc:
  assumes "\<And>i. s i < 3"
  shows "stream_value (inc_stream (inc_stream s)) W = (stream_value s W + 2) mod 3 ^ W"
proof -
  have "stream_value (inc_stream (inc_stream s)) W = (stream_value (inc_stream s) W + 1) mod 3 ^ W"
    by (rule stream_value_inc) (rule inc_stream_less)
  also have "\<dots> = ((stream_value s W + 1) mod 3 ^ W + 1) mod 3 ^ W"
    by (simp only: stream_value_inc [OF assms])
  also have "\<dots> = (stream_value s W + 1 + 1) mod 3 ^ W"
    by (simp add: mod_simps)
  finally show ?thesis by simp
qed

lemma inc_loop_shape:
  assumes "list_all (\<lambda>t. t < 3) ts"
  shows "inc_loop ts =
           (let k = length (takeWhile (\<lambda>t. t = 2) ts)
            in if k < length ts then (replicate k 0 @ (ts ! k + 1) # drop (Suc k) ts, False)
               else (replicate k 0, True))"
  using assms
proof (induction ts)
  case Nil
  show ?case by simp
next
  case (Cons t ts)
  then have t: "t < 3" and ts: "list_all (\<lambda>t. t < 3) ts" by auto
  show ?case
  proof (cases "t = 2")
    case True
    then show ?thesis using Cons.IH [OF ts] by (simp add: Let_def)
  next
    case False
    with t have "(t + 1) mod 3 = t + 1" by simp
    then have "inc_loop (t # ts) = ((t + 1) # ts, False)" by (simp add: Let_def)
    then show ?thesis using False by (simp add: Let_def)
  qed
qed

lemma wf_increment:
  assumes "wf_number n"
  shows "wf_number (increment cs n)"
proof -
  let ?k = "length (takeWhile (\<lambda>t. t = 2) (tail n))"
  have v: "list_all (\<lambda>t. t < 3) (tail n)" "head n < 3" "tail n \<noteq> []"
    using assms by (auto simp: wf_number_def)
  have k: "?k < length (tail n) \<Longrightarrow> tail n ! ?k + 1 < 3"
  proof -
    assume a: "?k < length (tail n)"
    then have "tail n ! ?k \<noteq> 2" using nth_length_takeWhile by blast
    moreover have "tail n ! ?k < 3" using v a by (simp add: list_all_length)
    ultimately show ?thesis by simp
  qed
  have d: "list_all (\<lambda>t. t < 3) (drop j (tail n))" for j
    using v by (auto simp: list_all_iff dest: in_set_dropD)
  have z: "list_all (\<lambda>t. t < 3) (replicate j (0::nat))" for j
    by (simp add: list_all_iff)
  show ?thesis
    using v k d z
    by (auto simp: wf_number_def increment_def inc_loop_shape Let_def split: option.splits)
qed


lemma strip_head_last: "strip_head h ts = [] \<or> last (strip_head h ts) \<noteq> h"
proof (cases "dropWhile (\<lambda>t. t = h) (rev ts)")
  case Nil
  then show ?thesis by (simp add: strip_head_def)
next
  case (Cons x xs)
  then have "x \<noteq> h" using hd_dropWhile [of "\<lambda>t. t = h" "rev ts"] by auto
  then show ?thesis by (simp add: strip_head_def Cons)
qed

lemma stream_of_append_heads: "stream_of (ts @ replicate k h) h = stream_of ts h"
  by (rule ext) (auto simp: stream_of_def nth_append)

lemma trit_at_strip: "trit_at n = stream_of (strip_head (head n) (tail n)) (head n)"
proof -
  obtain k where "tail n = strip_head (head n) (tail n) @ replicate k (head n)"
    using strip_head_decomp by blast
  then show ?thesis
    by (metis trit_at_stream stream_of_append_heads)
qed

lemma stripped_stream_le:
  assumes "\<And>i. stream_of p h i = stream_of q h i" and "q = [] \<or> last q \<noteq> h"
  shows "length q \<le> length p"
proof (rule ccontr)
  assume "\<not> length q \<le> length p"
  then have l: "length p < length q" by simp
  then have "q \<noteq> []" by auto
  then have "last q = q ! (length q - 1)" by (rule last_conv_nth)
  moreover have "length q - 1 < length q" "\<not> length q - 1 < length p"
    using l by linarith+
  then have "stream_of q h (length q - 1) = q ! (length q - 1)" "stream_of p h (length q - 1) = h"
    unfolding stream_of_def by simp_all
  ultimately show False using assms \<open>q \<noteq> []\<close> by metis
qed

lemma stripped_stream_eq:
  assumes "\<And>i. stream_of p h i = stream_of q h i"
    and "p = [] \<or> last p \<noteq> h" and "q = [] \<or> last q \<noteq> h"
  shows "p = q"
proof -
  have "length q \<le> length p" using assms(1,3) by (rule stripped_stream_le)
  moreover have "length p \<le> length q" using assms(1) [symmetric] assms(2) by (rule stripped_stream_le)
  ultimately have l: "length p = length q" by simp
  show ?thesis
  proof (rule nth_equalityI [OF l])
    fix i assume "i < length p"
    then show "p ! i = q ! i" using assms(1) [of i] l by (simp add: stream_of_def)
  qed
qed

lemma value_eq_iff_trits:
  "value_eq a b \<longleftrightarrow> head a = head b \<and> (\<forall>i. trit_at a i = trit_at b i)"
proof
  assume "value_eq a b"
  then have "head a = head b" "strip_head (head a) (tail a) = strip_head (head b) (tail b)"
    unfolding value_eq_def by blast+
  then have "trit_at a = trit_at b"
    using trit_at_strip [of a] trit_at_strip [of b] by metis
  then show "head a = head b \<and> (\<forall>i. trit_at a i = trit_at b i)"
    using \<open>head a = head b\<close> by simp
next
  assume r: "head a = head b \<and> (\<forall>i. trit_at a i = trit_at b i)"
  then have "stream_of (strip_head (head a) (tail a)) (head a) i =
             stream_of (strip_head (head a) (tail b)) (head a) i" for i
    by (metis trit_at_strip)
  then have "strip_head (head a) (tail a) = strip_head (head a) (tail b)"
    by (rule stripped_stream_eq) (rule strip_head_last)+
  with r show "value_eq a b" by (simp add: value_eq_def)
qed

lemma trit_at_beyond: "length (tail n) \<le> i \<Longrightarrow> trit_at n i = head n"
  by (simp add: trit_at_def)

lemma windows_determine_value:
  assumes "\<And>W. window_value a W = window_value b W"
  shows "value_eq a b"
proof -
  have t: "trit_at a i = trit_at b i" for i
  proof -
    have "window_value a (Suc i) = window_value b (Suc i)" "window_value a i = window_value b i"
      using assms by auto
    then have "trit_at a i * 3 ^ i = trit_at b i * 3 ^ i"
      by (simp add: window_value_def)
    then show ?thesis by simp
  qed
  have "head a = trit_at a (max (length (tail a)) (length (tail b)))"
    by (simp add: trit_at_beyond)
  also have "\<dots> = trit_at b (max (length (tail a)) (length (tail b)))" by (rule t)
  also have "\<dots> = head b" by (simp add: trit_at_beyond)
  finally show ?thesis using t by (simp add: value_eq_iff_trits)
qed

text \<open>
  Claim C8.  For a well-formed number \<open>n\<close> with \<open>k\<close> trits 2 at the bottom of its tail,
  \<^verbatim>\<open>increment\<close> turns these into 0 and adds one to the next trit; when the whole tail was
  2 it appends the trit \<open>head + 1\<close>, or, for head 2, sets the head to 0 and appends
  nothing.  The result is well-formed and its value is one more than that of \<open>n\<close> in
  every window of \<open>W\<close> trits; after two increments it is two more, and the result is
  value-equal to every number whose value is two more than that of \<open>n\<close>.
\<close>

theorem increment_adds_one:
  assumes "wf_number n"
  shows "let n' = increment cs n; k = length (takeWhile (\<lambda>t. t = 2) (tail n))
         in wf_number n' \<and>
            (k < length (tail n) \<longrightarrow>
               tail n' = replicate k 0 @ (tail n ! k + 1) # drop (Suc k) (tail n) \<and> head n' = head n) \<and>
            (k = length (tail n) \<and> head n \<noteq> 2 \<longrightarrow>
               tail n' = replicate k 0 @ [head n + 1] \<and> head n' = head n) \<and>
            (k = length (tail n) \<and> head n = 2 \<longrightarrow> tail n' = replicate k 0 \<and> head n' = 0) \<and>
            (\<forall>W. window_value n' W = (window_value n W + 1) mod 3 ^ W) \<and>
            (\<forall>W. window_value (increment cs' n') W = (window_value n W + 2) mod 3 ^ W) \<and>
            (\<forall>m. (\<forall>W. window_value m W = (window_value n W + 2) mod 3 ^ W) \<longrightarrow>
                 value_eq (increment cs' n') m)"
proof -
  let ?n' = "increment cs n" and ?k = "length (takeWhile (\<lambda>t. t = 2) (tail n))"
  have wf': "wf_number ?n'" using assms by (rule wf_increment)
  have v: "list_all (\<lambda>t. t < 3) (tail n)" using assms by (simp add: wf_number_def)
  have kle: "?k \<le> length (tail n)" by (rule length_takeWhile_le)
  have shape:
    "(?k < length (tail n) \<longrightarrow>
        tail ?n' = replicate ?k 0 @ (tail n ! ?k + 1) # drop (Suc ?k) (tail n) \<and> head ?n' = head n) \<and>
     (?k = length (tail n) \<and> head n \<noteq> 2 \<longrightarrow>
        tail ?n' = replicate ?k 0 @ [head n + 1] \<and> head ?n' = head n) \<and>
     (?k = length (tail n) \<and> head n = 2 \<longrightarrow> tail ?n' = replicate ?k 0 \<and> head ?n' = 0)"
    by (auto simp: increment_def inc_loop_shape [OF v] Let_def split: option.splits)
  have lt: "trit_at n i < 3" for i using assms by (rule trit_at_less)
  have s1: "trit_at ?n' = inc_stream (trit_at n)"
    by (rule ext) (rule trit_at_increment [OF assms])
  have s2: "trit_at (increment cs' ?n') = inc_stream (inc_stream (trit_at n))"
    by (rule ext) (simp add: trit_at_increment [OF wf'] s1)
  have one: "window_value ?n' W = (window_value n W + 1) mod 3 ^ W" for W
    unfolding window_value_stream s1 by (rule stream_value_inc) (rule lt)
  have two: "window_value (increment cs' ?n') W = (window_value n W + 2) mod 3 ^ W" for W
    unfolding window_value_stream s2 by (rule stream_value_inc_inc) (rule lt)
  have obs: "value_eq (increment cs' ?n') m"
    if "\<forall>W. window_value m W = (window_value n W + 2) mod 3 ^ W" for m
    by (rule windows_determine_value) (simp add: two that)
  show ?thesis
    unfolding Let_def using wf' shape one two obs by blast
qed

theorem increment_adds_one_witness:
  "wf_number \<lparr>head = 1, tail = [2, 2], memptr = None, unicode = - 2\<rparr> \<and>
   increment [] \<lparr>head = 1, tail = [2, 2], memptr = None, unicode = - 2\<rparr> =
     \<lparr>head = 1, tail = [0, 0, 2], memptr = None, unicode = - 2\<rparr> \<and>
   window_value (increment [] \<lparr>head = 1, tail = [2, 2], memptr = None, unicode = - 2\<rparr>) 4 =
     (window_value \<lparr>head = 1, tail = [2, 2], memptr = None, unicode = - 2\<rparr> 4 + 1) mod 3 ^ 4"
  using increment_adds_one [of "\<lparr>head = 1, tail = [2, 2], memptr = None, unicode = - 2\<rparr>" "[]" "[]"]
  by (simp add: wf_number_def increment_def Let_def)

section \<open>The xlat2 substitution is a permutation of order 3060\<close>

lemma xlat2_values:
  "map xlat2_map [33..126] =
     [53, 122, 93, 38, 103, 113, 116, 121, 102, 114, 36, 40, 119, 101, 52, 123, 87, 80, 41, 72,
      45, 90, 110, 44, 91, 37, 92, 51, 100, 76, 43, 81, 59, 62, 85, 33, 112, 74, 83, 55, 50, 70,
      104, 79, 65, 49, 67, 66, 54, 118, 94, 61, 73, 95, 48, 47, 56, 124, 106, 115, 98, 57, 109,
      60, 46, 84, 86, 97, 99, 96, 117, 89, 42, 77, 75, 39, 88, 126, 120, 68, 108, 125, 82, 69,
      111, 107, 78, 58, 35, 63, 71, 34, 105, 64]"
  by code_simp


lemma xlat2_sorted_values: "sort (map xlat2_map [33..126]) = [33..126]"
  unfolding xlat2_values by code_simp

lemma xlat2_cycles_rotate: "\<forall>c \<in> set xlat2_cycles. map xlat2_map c = rotate1 c"
  by code_simp

lemma xlat2_cycles_sorted: "sort (concat xlat2_cycles) = [33..126]"
  by code_simp

lemma xlat2_cycles_lengths: "map length xlat2_cycles = [68, 6, 5, 4, 9, 2]"
  by (simp add: xlat2_cycles_def)

lemma xlat2_cycles_length: "\<forall>c \<in> set xlat2_cycles. length c dvd 3060"
proof
  fix c assume "c \<in> set xlat2_cycles"
  then have "length c \<in> set (map length xlat2_cycles)" by simp
  then have "length c \<in> {68, 6, 5, 4, 9, 2}" unfolding xlat2_cycles_lengths by simp
  then show "length c dvd 3060" by auto
qed

lemma printable_upto: "{33..<127} = set [33..(126::int)]"
  unfolding set_upto by auto

lemma xlat2_image: "xlat2_map ` {33..<127} = {33..<127}"
proof -
  have "xlat2_map ` set [33..126] = set (sort (map xlat2_map [33..126]))"
    by (simp only: set_sort set_map)
  then show ?thesis
    unfolding printable_upto xlat2_sorted_values .
qed

lemma xlat2_inj: "inj_on xlat2_map {33..<127}"
proof -
  have "distinct (sort (map xlat2_map [33..126]))"
    unfolding xlat2_sorted_values by (rule distinct_upto)
  then have "distinct (map xlat2_map [33..126])" by (simp only: distinct_sort)
  then show ?thesis
    unfolding printable_upto by (simp only: distinct_map)
qed

lemma xlat2_map_printable: "v \<in> {33..<127} \<Longrightarrow> xlat2_map v \<in> {33..<127}"
  using xlat2_image by blast

lemma xlat2_funpow_printable: "v \<in> {33..<127} \<Longrightarrow> (xlat2_map ^^ k) v \<in> {33..<127}"
  by (induction k) (auto intro: xlat2_map_printable simp del: atLeastLessThan_iff)

lemma xlat2_repaired_number_of:
  assumes "v \<in> {33..<127}"
  shows "xlat2_repaired (number_of v) = Inr (number_of (xlat2_map v))"
proof -
  have "0 \<le> xlat2_map v" using xlat2_map_printable [OF assms] by simp
  then show ?thesis
    using assms
    by (simp add: xlat2_repaired_def xlat2_def update_unicode_def number_of_def Let_def
          repair_number_after_xlat2_def xlat2_map_def)
qed

lemma xlat2_times_number_of:
  "v \<in> {33..<127} \<Longrightarrow> xlat2_times k (number_of v) = Inr (number_of ((xlat2_map ^^ k) v))"
proof (induction k arbitrary: v)
  case 0
  show ?case by simp
next
  case (Suc k)
  have "xlat2_times (Suc k) (number_of v) = xlat2_times k (number_of (xlat2_map v))"
    by (simp add: xlat2_repaired_number_of [OF Suc.prems])
  also have "\<dots> = Inr (number_of ((xlat2_map ^^ k) (xlat2_map v)))"
    by (rule Suc.IH) (rule xlat2_map_printable [OF Suc.prems])
  finally show ?case by (simp add: funpow_swap1)
qed

lemma map_funpow_rotate:
  assumes "map f c = rotate1 c"
  shows "map (f ^^ k) c = rotate k c"
proof (induction k)
  case 0
  show ?case by simp
next
  case (Suc k)
  have "map (f ^^ Suc k) c = map (f ^^ k) (map f c)"
    by (simp add: funpow_swap1)
  also have "\<dots> = map (f ^^ k) (rotate1 c)" by (simp only: assms)
  also have "\<dots> = rotate1 (map (f ^^ k) c)" by (simp add: rotate1_map)
  also have "\<dots> = rotate (Suc k) c" by (simp add: Suc)
  finally show ?case .
qed

lemma cycle_returns:
  assumes "map f c = rotate1 c" and "length c dvd k" and "x \<in> set c"
  shows "(f ^^ k) x = x"
proof -
  have "rotate k c = c"
    using assms(2) by (metis rotate_conv_mod mod_0_imp_dvd dvd_imp_mod_0 rotate0 id_apply)
  then have "map (f ^^ k) c = map id c"
    using map_funpow_rotate [OF assms(1), of k] by simp
  then show ?thesis using assms(3) by (metis map_eq_conv id_apply)
qed

lemma xlat2_order:
  assumes "v \<in> {33..<127}"
  shows "(xlat2_map ^^ 3060) v = v"
proof -
  have "v \<in> set (sort (concat xlat2_cycles))"
    using assms unfolding printable_upto xlat2_cycles_sorted .
  then obtain c where c: "c \<in> set xlat2_cycles" "v \<in> set c" by auto
  show ?thesis
    using c xlat2_cycles_rotate xlat2_cycles_length by (intro cycle_returns [of _ c]) auto
qed

lemma to_number_number_of: "0 \<le> v \<Longrightarrow> v < 0x110000 \<Longrightarrow> to_number v = Inr (number_of v)"
  by (simp add: to_number_def number_of_def)

text \<open>
  Claim C9, as the code has it.  The substitution is a permutation of the 94 code
  points from 33 to 126.  On the number of such a code point \<open>v\<close>, \<^verbatim>\<open>xlat2\<close> stores the
  table entry and drops the tail, the repair rebuilds the tail of the table entry, so
  one application yields the number of \<open>xlat2_map v\<close>, \<open>k\<close> applications yield the number
  of the \<open>k\<close>-fold image, and 3060 applications (the order of the permutation, whose
  cycles have lengths 68, 6, 5, 4, 9 and 2) give back the number of \<open>v\<close>.
\<close>

theorem xlat2_permutation_order:
  "bij_betw xlat2_map {33..<127} {33..<127} \<and>
   (\<forall>v \<in> {33..<127}.
      to_number v = Inr (number_of v) \<and>
      xlat2 (number_of v) = Inr ((number_of v)\<lparr>unicode := xlat2_map v, tail := []\<rparr>) \<and>
      xlat2_repaired (number_of v) = Inr (number_of (xlat2_map v)) \<and>
      (\<forall>k. xlat2_times k (number_of v) = Inr (number_of ((xlat2_map ^^ k) v))) \<and>
      xlat2_times 3060 (number_of v) = Inr (number_of v))"
proof -
  have "bij_betw xlat2_map {33..<127} {33..<127}"
    unfolding bij_betw_def using xlat2_inj xlat2_image by blast
  moreover have "to_number v = Inr (number_of v)" if "v \<in> {33..<127}" for v
    using that by (intro to_number_number_of) auto
  moreover have "xlat2 (number_of v) = Inr ((number_of v)\<lparr>unicode := xlat2_map v, tail := []\<rparr>)"
    if "v \<in> {33..<127}" for v
    using that by (simp add: xlat2_def update_unicode_def number_of_def Let_def xlat2_map_def)
  moreover have "xlat2_times 3060 (number_of v) = Inr (number_of v)" if "v \<in> {33..<127}" for v
    by (simp only: xlat2_times_number_of [OF that] xlat2_order [OF that])
  ultimately show ?thesis
    using xlat2_repaired_number_of xlat2_times_number_of by blast
qed

theorem xlat2_permutation_order_witness:
  "(81 :: int) \<in> {33..<127} \<and> xlat2_map 81 = 54 \<and>
   to_number 81 = Inr (number_of 81) \<and>
   xlat2_repaired (number_of 81) = Inr (number_of 54) \<and>
   xlat2_times 3060 (number_of 81) = Inr (number_of 81)"
proof -
  have m: "(81 :: int) \<in> {33..<127}" by simp
  have v: "xlat2_map 81 = 54" by code_simp
  have "to_number 81 = Inr (number_of 81) \<and>
        xlat2_repaired (number_of 81) = Inr (number_of (xlat2_map 81)) \<and>
        xlat2_times 3060 (number_of 81) = Inr (number_of 81)"
    using xlat2_permutation_order m by blast
  then show ?thesis using m v by (simp only:)
qed

text \<open>
  The claim as stated fails: 94 applications take the code point 33 to 56, since 33
  lies on the cycle of length 68.
\<close>

theorem xlat2_94_times_not_identity:
  "xlat2_times 94 (number_of 33) = Inr (number_of 56) \<and>
   number_of 33 = \<lparr>head = 0, tail = [0, 2, 0, 1], memptr = None, unicode = 33\<rparr> \<and>
   number_of 56 = \<lparr>head = 0, tail = [2, 0, 0, 2], memptr = None, unicode = 56\<rparr>"
proof -
  let ?c = "hd xlat2_cycles"
  have c: "?c \<in> set xlat2_cycles" by (simp add: xlat2_cycles_def)
  then have "map xlat2_map ?c = rotate1 ?c" using xlat2_cycles_rotate by blast
  then have "map (xlat2_map ^^ 94) ?c = rotate 94 ?c" by (rule map_funpow_rotate)
  then have "map (xlat2_map ^^ 94) ?c ! 0 = rotate 94 ?c ! 0" by simp
  moreover have "rotate 94 ?c ! 0 = 56"
    by code_simp
  moreover have "?c ! 0 = 33" "0 < length ?c"
    by (simp_all add: xlat2_cycles_def)
  then have "map (xlat2_map ^^ 94) ?c ! 0 = (xlat2_map ^^ 94) 33"
    by (simp only: nth_map)
  ultimately have "(xlat2_map ^^ 94) 33 = 56" by simp
  moreover have "xlat2_times 94 (number_of 33) = Inr (number_of ((xlat2_map ^^ 94) 33))"
    by (rule xlat2_times_number_of) simp
  moreover have "number_of 33 = \<lparr>head = 0, tail = [0, 2, 0, 1], memptr = None, unicode = 33\<rparr>"
    by (simp add: number_of_def) code_simp
  moreover have "number_of 56 = \<lparr>head = 0, tail = [2, 0, 0, 2], memptr = None, unicode = 56\<rparr>"
    by (simp add: number_of_def) code_simp
  ultimately show ?thesis by simp
qed

section \<open>Value-equal numbers share their memory cell\<close>

lemma shares_child:
  "shares h t \<Longrightarrow> k < 3 \<Longrightarrow> child t k = Some nd \<Longrightarrow> shares h nd \<and> (k = h \<longrightarrow> cell nd = cell t)"
  by (cases t) (auto split: if_splits)

lemma shares_set_child:
  "shares h t \<Longrightarrow> k < 3 \<Longrightarrow> shares h nd \<Longrightarrow> (k = h \<longrightarrow> cell nd = cell t) \<Longrightarrow>
   shares h (set_child t k nd)"
  by (cases t) auto

lemma child_set_child_same: "child (set_child t k nd) k = Some nd"
  by (cases t) auto

lemma child_set_child_other:
  "k < 3 \<Longrightarrow> k' < 3 \<Longrightarrow> k' \<noteq> k \<Longrightarrow> child (set_child t k nd) k' = child t k'"
  by (cases t) auto

lemma cell_set_child: "cell (set_child t k nd) = cell t"
  by (cases t) auto

lemma memptr_loop_Some:
  "child cur t = Some nd \<Longrightarrow>
   memptr_loop h (t # ts) cur lm cs =
     (case memptr_loop h ts nd (cell nd) cs of (nd', r, cs') \<Rightarrow> (set_child cur t nd', r, cs'))"
  by simp

lemma memptr_loop_None:
  "child cur t = None \<Longrightarrow>
   memptr_loop h (t # ts) cur lm cs =
     (case memptr_loop h ts (MTree (if t = h then lm else length cs) None None None)
             (if t = h then lm else length cs) (if t = h then cs else cs @ [new_cell]) of
        (nd', r, cs') \<Rightarrow> (set_child cur t nd', r, cs'))"
  by simp

lemma memptr_loop_props:
  assumes "h < 3" and "list_all (\<lambda>t. t < 3) ts" and "shares h cur"
    and "memptr_loop h ts cur (cell cur) cs = (cur', r, cs')"
  shows "find_node cur' ts \<noteq> None \<and> find_cell cur' ts = Some r \<and> cell cur' = cell cur \<and> shares h cur' \<and>
         (\<forall>p nd. list_all (\<lambda>t. t < 3) p \<longrightarrow> find_node cur p = Some nd \<longrightarrow>
                 (\<exists>nd'. find_node cur' p = Some nd' \<and> cell nd' = cell nd))"
  using assms(2-)
proof (induction ts arbitrary: cur cur' r cs cs')
  case Nil
  then show ?case by (auto simp: find_cell_def)
next
  case (Cons t ts)
  have t: "t < 3" and ts: "list_all (\<lambda>t. t < 3) ts" using Cons.prems(1) by auto
  show ?case
  proof (cases "child cur t")
    case (Some nd)
    obtain nd' r0 cs0 where l0: "memptr_loop h ts nd (cell nd) cs = (nd', r0, cs0)"
      by (cases "memptr_loop h ts nd (cell nd) cs") auto
    have "(set_child cur t nd', r0, cs0) = (cur', r, cs')"
      using Cons.prems(3) unfolding memptr_loop_Some [OF Some] l0 by simp
    then have loop: "memptr_loop h ts nd (cell nd) cs = (nd', r, cs')"
      and cur': "cur' = set_child cur t nd'"
      using l0 by simp_all
    have sh: "shares h nd" "t = h \<longrightarrow> cell nd = cell cur"
      using shares_child [OF Cons.prems(2) t Some] by auto
    note ih = Cons.IH [OF ts sh(1) loop]
    have pres: "\<exists>x'. find_node cur' p = Some x' \<and> cell x' = cell x"
      if p: "list_all (\<lambda>t. t < 3) p" and f: "find_node cur p = Some x" for p x
    proof (cases p)
      case Nil
      with f show ?thesis by (simp add: cur' cell_set_child)
    next
      case (Cons k ks)
      show ?thesis
      proof (cases "k = t")
        case True
        with f Cons Some have "find_node nd ks = Some x" by simp
        moreover have "list_all (\<lambda>t. t < 3) ks" using p Cons by simp
        ultimately obtain x' where "find_node nd' ks = Some x'" "cell x' = cell x"
          using ih by meson
        then show ?thesis by (simp add: Cons True cur' child_set_child_same)
      next
        case False
        moreover have "k < 3" using p Cons by simp
        ultimately have "child cur' k = child cur k"
          using t by (simp add: cur' child_set_child_other)
        with f Cons show ?thesis by simp
      qed
    qed
    from ih have i1: "find_node nd' ts \<noteq> None" and i2: "find_cell nd' ts = Some r"
      and i3: "cell nd' = cell nd" and i4: "shares h nd'" by blast+
    have "t = h \<longrightarrow> cell nd' = cell cur" using i3 sh(2) by simp
    then have a: "shares h cur'"
      unfolding cur' using Cons.prems(2) t i4 by (intro shares_set_child)
    have b: "find_node cur' (t # ts) \<noteq> None" using i1 by (simp add: cur' child_set_child_same)
    have c: "find_cell cur' (t # ts) = Some r"
      using i2 by (simp add: cur' find_cell_def child_set_child_same)
    have d: "cell cur' = cell cur" by (simp add: cur' cell_set_child)
    show ?thesis using a b c d pres by blast
  next
    case None
    define c where "c = (if t = h then cell cur else length cs)"
    define cs1 where "cs1 = (if t = h then cs else cs @ [new_cell])"
    let ?new = "MTree c None None None"
    obtain nd' r0 cs0 where l0: "memptr_loop h ts ?new c cs1 = (nd', r0, cs0)"
      by (cases "memptr_loop h ts ?new c cs1") auto
    have "(set_child cur t nd', r0, cs0) = (cur', r, cs')"
      using Cons.prems(3) l0 unfolding memptr_loop_None [OF None] c_def cs1_def by simp
    then have loop: "memptr_loop h ts ?new (cell ?new) cs1 = (nd', r, cs')"
      and cur': "cur' = set_child cur t nd'"
      using l0 by simp_all
    have sh: "shares h ?new" by simp
    note ih = Cons.IH [OF ts sh loop]
    have cn: "cell nd' = c" using ih by (metis MemoryTree.sel(1))
    have pres: "\<exists>x'. find_node cur' p = Some x' \<and> cell x' = cell x"
      if p: "list_all (\<lambda>t. t < 3) p" and f: "find_node cur p = Some x" for p x
    proof (cases p)
      case Nil
      with f show ?thesis by (simp add: cur' cell_set_child)
    next
      case (Cons k ks)
      have "k \<noteq> t" using f Cons None by auto
      moreover have "k < 3" using p Cons by simp
      ultimately have "child cur' k = child cur k"
        using t by (simp add: cur' child_set_child_other)
      with f Cons show ?thesis by simp
    qed
    from ih have i1: "find_node nd' ts \<noteq> None" and i2: "find_cell nd' ts = Some r"
      and i4: "shares h nd'" by blast+
    have "t = h \<longrightarrow> cell nd' = cell cur" using cn by (simp add: c_def)
    then have a: "shares h cur'"
      unfolding cur' using Cons.prems(2) t i4 by (intro shares_set_child)
    have b: "find_node cur' (t # ts) \<noteq> None" using i1 by (simp add: cur' child_set_child_same)
    have c: "find_cell cur' (t # ts) = Some r"
      using i2 by (simp add: cur' find_cell_def child_set_child_same)
    have d: "cell cur' = cell cur" by (simp add: cur' cell_set_child)
    show ?thesis using a b c d pres by blast
  qed
qed


lemma find_node_append:
  "find_node t (p @ q) = (case find_node t p of None \<Rightarrow> None | Some nd \<Rightarrow> find_node nd q)"
  by (induction p arbitrary: t) (auto split: option.splits)

lemma shares_find_node:
  "shares h t \<Longrightarrow> list_all (\<lambda>k. k < 3) p \<Longrightarrow> find_node t p = Some nd \<Longrightarrow> shares h nd"
proof (induction p arbitrary: t)
  case Nil
  then show ?case by simp
next
  case (Cons k ks)
  from Cons.prems(3) obtain x where x: "child t k = Some x" "find_node x ks = Some nd"
    by (auto split: option.splits)
  have "shares h x" using shares_child [OF Cons.prems(1) _ x(1)] Cons.prems(2) by simp
  then show ?case using Cons.IH [of x] Cons.prems(2) x(2) by simp
qed

lemma find_node_heads:
  "shares h t \<Longrightarrow> h < 3 \<Longrightarrow> find_node t (replicate k h) = Some nd \<Longrightarrow> cell nd = cell t"
proof (induction k arbitrary: t)
  case 0
  then show ?case by simp
next
  case (Suc k)
  from Suc.prems(3) obtain x where x: "child t h = Some x" "find_node x (replicate k h) = Some nd"
    by (auto split: option.splits)
  have "shares h x" "cell x = cell t"
    using shares_child [OF Suc.prems(1,2) x(1)] by simp_all
  then show ?case using Suc.IH [of x] Suc.prems(2) x(2) by simp
qed

lemma find_cell_heads:
  assumes "shares h t" and "h < 3" and "list_all (\<lambda>k. k < 3) p"
    and "find_cell t (p @ replicate k h) = Some c"
  shows "find_cell t p = Some c"
proof -
  from assms(4) obtain nd2 where nd2: "find_node t (p @ replicate k h) = Some nd2" "cell nd2 = c"
    by (auto simp: find_cell_def)
  then obtain nd where nd: "find_node t p = Some nd" "find_node nd (replicate k h) = Some nd2"
    by (auto simp: find_node_append split: option.splits)
  have "shares h nd" using assms(1,3) nd(1) by (rule shares_find_node)
  then have "cell nd2 = cell nd" using assms(2) nd(2) by (rule find_node_heads)
  then show ?thesis using nd nd2 by (simp add: find_cell_def)
qed

lemma strip_head_valid: "list_all P ts \<Longrightarrow> list_all P (strip_head h ts)"
  by (auto simp: strip_head_def list_all_iff dest: set_dropWhileD)

lemma cell_of_strip:
  assumes "memory_ok m" and "wf_number n" and "cell_of m n = Some c"
  shows "find_cell (roots m ! head n) (strip_head (head n) (tail n)) = Some c"
proof -
  have h: "head n < 3" and v: "list_all (\<lambda>k. k < 3) (tail n)"
    using assms(2) by (auto simp: wf_number_def)
  obtain k where k: "tail n = strip_head (head n) (tail n) @ replicate k (head n)"
    using strip_head_decomp by blast
  have fc: "find_cell (roots m ! head n) (strip_head (head n) (tail n) @ replicate k (head n)) = Some c"
    using assms(3) k by (simp add: cell_of_def)
  have sh: "shares (head n) (roots m ! head n)" using assms(1) h by (simp add: memory_ok_def)
  show ?thesis
    by (rule find_cell_heads [OF sh h strip_head_valid [OF v] fc])
qed

lemma value_eq_same_cell:
  assumes "memory_ok m" and "wf_number n1" and "wf_number n2" and "value_eq n1 n2"
    and "cell_of m n1 = Some c1" and "cell_of m n2 = Some c2"
  shows "c1 = c2"
proof -
  have "find_cell (roots m ! head n1) (strip_head (head n1) (tail n1)) = Some c1"
    using assms(1,2,5) by (rule cell_of_strip)
  moreover have "find_cell (roots m ! head n2) (strip_head (head n2) (tail n2)) = Some c2"
    using assms(1,3,6) by (rule cell_of_strip)
  moreover have "head n1 = head n2" "strip_head (head n1) (tail n1) = strip_head (head n2) (tail n2)"
    using assms(4) unfolding value_eq_def by blast+
  ultimately show ?thesis by (metis option.inject)
qed

lemma update_memptr_walk:
  assumes "memory_ok m" and "wf_number n" and "memptr n = None" and "update_memptr n m = (n', m')"
  shows "memptr n' = cell_of m' n \<and> memptr n' \<noteq> None \<and> memory_ok m' \<and>
         (\<forall>n0 c. wf_number n0 \<longrightarrow> cell_of m n0 = Some c \<longrightarrow> cell_of m' n0 = Some c)"
proof -
  let ?h = "head n" and ?root = "roots m ! head n"
  have h: "?h < 3" and v: "list_all (\<lambda>k. k < 3) (tail n)"
    using assms(2) by (auto simp: wf_number_def)
  have len: "length (roots m) = 3" and sh: "shares ?h ?root"
    using assms(1) h by (auto simp: memory_ok_def)
  obtain root' r cs' where loop: "memptr_loop ?h (tail n) ?root (cell ?root) (cells m) = (root', r, cs')"
    by (cases "memptr_loop ?h (tail n) ?root (cell ?root) (cells m)") auto
  have n': "n' = n\<lparr>memptr := Some r\<rparr>"
    and m': "m' = m\<lparr>roots := (roots m)[?h := root'], cells := cs'\<rparr>"
    using assms(3,4) loop by (simp_all add: update_memptr_def Let_def)
  note props = memptr_loop_props [OF h v sh loop]
  from props have p2: "find_cell root' (tail n) = Some r" and p4: "shares ?h root'"
    and p5: "\<And>p nd. list_all (\<lambda>t. t < 3) p \<Longrightarrow> find_node ?root p = Some nd \<Longrightarrow>
                 \<exists>nd'. find_node root' p = Some nd' \<and> cell nd' = cell nd"
    by blast+
  have r0: "roots m' ! ?h = root'" using len h by (simp add: m')
  have r1: "k \<noteq> ?h \<Longrightarrow> roots m' ! k = roots m ! k" for k by (simp add: m')
  have a: "memptr n' = cell_of m' n" using p2 r0 by (simp add: n' cell_of_def)
  have b: "memptr n' \<noteq> None" by (simp add: n')
  have c: "memory_ok m'"
    unfolding memory_ok_def
  proof (intro conjI allI impI)
    show "length (roots m') = 3" using len by (simp add: m')
    fix k :: nat assume k: "k < 3"
    show "shares k (roots m' ! k)"
    proof (cases "k = ?h")
      case True
      then show ?thesis using p4 r0 by simp
    next
      case False
      then show ?thesis using assms(1) k r1 by (simp add: memory_ok_def)
    qed
  qed
  have d: "cell_of m' n0 = Some c" if w: "wf_number n0" and f: "cell_of m n0 = Some c" for n0 c
  proof (cases "head n0 = ?h")
    case True
    from f True obtain nd where nd: "find_node ?root (tail n0) = Some nd" "cell nd = c"
      by (auto simp: cell_of_def find_cell_def)
    have "list_all (\<lambda>t. t < 3) (tail n0)" using w by (simp add: wf_number_def)
    then obtain nd' where "find_node root' (tail n0) = Some nd'" "cell nd' = cell nd"
      using p5 nd(1) by blast
    then show ?thesis using True r0 nd(2) by (simp add: cell_of_def find_cell_def)
  next
    case False
    then show ?thesis using f r1 by (simp add: cell_of_def)
  qed
  show ?thesis using a b c d by blast
qed

lemma update_memptr_keeps:
  assumes "memory_ok m" and "wf_number n" and "update_memptr n m = (n', m')"
  shows "memory_ok m' \<and> (\<forall>n0 c. wf_number n0 \<longrightarrow> cell_of m n0 = Some c \<longrightarrow> cell_of m' n0 = Some c)"
proof (cases "memptr n")
  case None
  then show ?thesis using update_memptr_walk [OF assms(1,2) None assms(3)] by blast
next
  case (Some p)
  then have "m' = m" using assms(3) by (simp add: update_memptr_def)
  then show ?thesis using assms(1) by simp
qed

lemma later_keeps:
  assumes "later m m'" and "memory_ok m"
  shows "memory_ok m' \<and> (\<forall>n0 c. wf_number n0 \<longrightarrow> cell_of m n0 = Some c \<longrightarrow> cell_of m' n0 = Some c)"
  using assms
proof (induction rule: later.induct)
  case (later_refl m)
  then show ?case by simp
next
  case (later_lookup m m1 n n' m2)
  then have ih: "memory_ok m1"
    "\<And>n0 c. wf_number n0 \<Longrightarrow> cell_of m n0 = Some c \<Longrightarrow> cell_of m1 n0 = Some c"
    by blast+
  from update_memptr_keeps [OF ih(1) later_lookup.hyps(2,3)]
  have "memory_ok m2" "\<And>n0 c. wf_number n0 \<Longrightarrow> cell_of m1 n0 = Some c \<Longrightarrow> cell_of m2 n0 = Some c"
    by blast+
  then show ?case using ih(2) by blast
next
  case (later_store m m1 cs)
  then have "memory_ok m1"
    "\<And>n0 c. wf_number n0 \<Longrightarrow> cell_of m n0 = Some c \<Longrightarrow> cell_of m1 n0 = Some c"
    by blast+
  then show ?case by (simp add: memory_ok_def cell_of_def)
qed

lemma memory_ok_initial: "memory_ok initial_memory"
  by (simp add: memory_ok_def initial_memory_def less_Suc_eq numeral_3_eq_3)

lemma wf_number_memptr: "wf_number (n\<lparr>memptr := p\<rparr>) = wf_number n"
  by (simp add: wf_number_def)

lemma value_eq_memptr: "value_eq (a\<lparr>memptr := p\<rparr>) (b\<lparr>memptr := q\<rparr>) = value_eq a b"
  by (simp add: value_eq_def)

text \<open>
  Claim C6.  In every memory the interpreter can be in, when the tree is walked for a
  well-formed number (its cached pointer not set), and then again, any number of lookups
  and cell writes later, for a value-equal number, both walks end at the same cell.
\<close>

theorem value_equal_same_cell:
  assumes "later initial_memory m"
    and "wf_number n1" and "wf_number n2" and "value_eq n1 n2"
    and "update_memptr (n1\<lparr>memptr := None\<rparr>) m = (n1', m1)"
    and "later m1 m2"
    and "update_memptr (n2\<lparr>memptr := None\<rparr>) m2 = (n2', m3)"
  shows "memptr n1' = memptr n2' \<and> memptr n1' \<noteq> None"
proof -
  let ?a = "n1\<lparr>memptr := None\<rparr>" and ?b = "n2\<lparr>memptr := None\<rparr>"
  have wa: "wf_number ?a" and wb: "wf_number ?b" and eq: "value_eq ?a ?b"
    using assms(2-4) by (simp_all add: wf_number_memptr value_eq_memptr)
  have ok: "memory_ok m" using later_keeps [OF assms(1) memory_ok_initial] by blast
  have na: "memptr ?a = None" and nb: "memptr ?b = None" by simp_all
  from update_memptr_walk [OF ok wa na assms(5)]
  have 1: "memptr n1' = cell_of m1 ?a" "memptr n1' \<noteq> None" "memory_ok m1" by blast+
  then obtain c where c: "memptr n1' = Some c" "cell_of m1 ?a = Some c" by (metis not_None_eq)
  from later_keeps [OF assms(6) 1(3)] c(2) wa
  have 2: "memory_ok m2" "cell_of m2 ?a = Some c" by blast+
  from update_memptr_walk [OF 2(1) wb nb assms(7)]
  have 3: "memptr n2' = cell_of m3 ?b" "memptr n2' \<noteq> None" "memory_ok m3"
    "\<And>n0 c. wf_number n0 \<Longrightarrow> cell_of m2 n0 = Some c \<Longrightarrow> cell_of m3 n0 = Some c"
    by blast+
  then obtain c' where c': "cell_of m3 ?b = Some c'" by (metis not_None_eq)
  have "cell_of m3 ?a = Some c" using 3(4) wa 2(2) by blast
  then have "c = c'" using value_eq_same_cell [OF 3(3) wa wb eq] c' by blast
  then show ?thesis using c c' 3(1) by simp
qed


theorem value_equal_same_cell_witness:
  "later initial_memory initial_memory \<and>
   wf_number \<lparr>head = 0, tail = [1], memptr = None, unicode = 1\<rparr> \<and>
   wf_number \<lparr>head = 0, tail = [1, 0, 0], memptr = None, unicode = - 2\<rparr> \<and>
   value_eq \<lparr>head = 0, tail = [1], memptr = None, unicode = 1\<rparr>
            \<lparr>head = 0, tail = [1, 0, 0], memptr = None, unicode = - 2\<rparr> \<and>
   memptr (fst (update_memptr \<lparr>head = 0, tail = [1], memptr = None, unicode = 1\<rparr> initial_memory))
     = Some 3 \<and>
   memptr (fst (update_memptr \<lparr>head = 0, tail = [1, 0, 0], memptr = None, unicode = - 2\<rparr>
                 (snd (update_memptr \<lparr>head = 0, tail = [1], memptr = None, unicode = 1\<rparr>
                         initial_memory))))
     = Some 3"
proof -
  let ?a = "\<lparr>head = 0, tail = [1], memptr = None, unicode = 1\<rparr>"
  let ?b = "\<lparr>head = 0, tail = [1, 0, 0], memptr = None, unicode = - 2\<rparr>"
  have l: "later initial_memory initial_memory" by (rule later_refl)
  have wa: "wf_number ?a" and wb: "wf_number ?b" by (simp_all add: wf_number_def)
  have eq: "value_eq ?a ?b" by (simp add: value_eq_def strip_head_def)
  have ua: "update_memptr (?a\<lparr>memptr := None\<rparr>) initial_memory =
              (fst (update_memptr ?a initial_memory), snd (update_memptr ?a initial_memory))"
    by simp
  have ub: "update_memptr (?b\<lparr>memptr := None\<rparr>) (snd (update_memptr ?a initial_memory)) =
              (fst (update_memptr ?b (snd (update_memptr ?a initial_memory))),
               snd (update_memptr ?b (snd (update_memptr ?a initial_memory))))"
    by simp
  have "memptr (fst (update_memptr ?a initial_memory)) = Some 3"
    by (simp add: update_memptr_def initial_memory_def Let_def new_cell_def)
  then show ?thesis
    using value_equal_same_cell [OF l wa wb eq ua later_refl ub] l wa wb eq by simp
qed

section \<open>The Unicode cache after reading a newline\<close>

text \<open>
  Claim C5 at the instruction \<^verbatim>\<open>in\<close>.  On a newline the interpreter builds \<open>A\<close> with
  \<^verbatim>\<open>to_number(1)\<close> and sets the head to 2, which leaves the cache at 1: the cache is
  neither \<open>-2\<close> nor, as a head other than 0 asks, \<open>-1\<close>.  At the end of input the same
  instruction sets the cache to \<open>-1\<close>.  The program of the two characters \<^verbatim>\<open>u\<close> and
  \<^verbatim>\<open>C\<close> with a newline on its input leaves \<open>A\<close> in this state after its first round.
\<close>

theorem in_newline_keeps_unicode_cache:
  "(case do_in (st\<lparr>st_stdin := 0x0A # rest\<rparr>) of
      Inr st' \<Rightarrow>
        st_a st' = \<lparr>head = 2, tail = [1], memptr = None, unicode = 1\<rparr> \<and> st_stdin st' = rest
    | Inl e \<Rightarrow> False) \<and>
   unicode_cache_ok \<lparr>head = 2, tail = [1], memptr = None, unicode = 1\<rparr> = False \<and>
   (case do_in (st\<lparr>st_stdin := []\<rparr>) of
      Inr st' \<Rightarrow> st_a st' = \<lparr>head = 2, tail = [2], memptr = None, unicode = - 1\<rparr>
    | Inl e \<Rightarrow> False) \<and>
   unicode_cache_ok \<lparr>head = 2, tail = [2], memptr = None, unicode = - 1\<rparr> \<and>
   (case result_state (main ps [0x75, 0x43] [0x0A] 1) of
      Some s \<Rightarrow> st_a s = \<lparr>head = 2, tail = [1], memptr = None, unicode = 1\<rparr> \<and> st_step s = 2
    | None \<Rightarrow> False)"
proof -
  have t1: "to_trits (Suc 0) = [1]" by (subst to_trits.simps) simp
  have t2: "to_trits 2 = [2]" by (subst to_trits.simps) simp
  have a: "case do_in (st\<lparr>st_stdin := 0x0A # rest\<rparr>) of
      Inr st' \<Rightarrow>
        st_a st' = \<lparr>head = 2, tail = [1], memptr = None, unicode = 1\<rparr> \<and> st_stdin st' = rest
    | Inl e \<Rightarrow> False"
    by (simp add: do_in_def read_utf8_character_def getchar_def EOF_def to_number_def t1)
  have b: "unicode_cache_ok \<lparr>head = 2, tail = [1], memptr = None, unicode = 1\<rparr> = False"
    by (simp add: unicode_cache_ok_def)
  have c: "case do_in (st\<lparr>st_stdin := []\<rparr>) of
      Inr st' \<Rightarrow> st_a st' = \<lparr>head = 2, tail = [2], memptr = None, unicode = - 1\<rparr>
    | Inl e \<Rightarrow> False"
    by (simp add: do_in_def read_utf8_character_def getchar_def EOF_def to_number_def t2)
  have d: "unicode_cache_ok \<lparr>head = 2, tail = [2], memptr = None, unicode = - 1\<rparr>"
    by (simp add: unicode_cache_ok_def)
  have e: "case result_state (main ps [0x75, 0x43] [0x0A] 1) of
      Some s \<Rightarrow> st_a s = \<lparr>head = 2, tail = [1], memptr = None, unicode = 1\<rparr> \<and> st_step s = 2
    | None \<Rightarrow> False"
    by code_simp
  from a b c d e show ?thesis by (simp only: simp_thms)
qed

section \<open>Different values have different cells\<close>

lemma cell_in_cells_of: "cell t \<in> cells_of t"
  by (cases t) simp

lemma cells_of_child: "child t k = Some nd \<Longrightarrow> cells_of nd \<subseteq> cells_of t"
  by (cases t) (auto split: if_splits)

lemma unique_child:
  "unique_cells h t \<Longrightarrow> k < 3 \<Longrightarrow> child t k = Some nd \<Longrightarrow>
   unique_cells h nd \<and> (k = h \<longrightarrow> cell nd = cell t) \<and> (k \<noteq> h \<longrightarrow> cell t \<notin> cells_of nd)"
  by (cases t) (auto split: if_splits)

lemma unique_disjoint:
  "unique_cells h t \<Longrightarrow> k < 3 \<Longrightarrow> k' < 3 \<Longrightarrow> k \<noteq> k' \<Longrightarrow>
   child t k = Some nd \<Longrightarrow> child t k' = Some nd' \<Longrightarrow> cells_of nd \<inter> cells_of nd' = {}"
  by (cases t) (auto simp: branch_cells_def split: if_splits)

lemma cells_of_set_child:
  "k < 3 \<Longrightarrow> cells_of (set_child t k nd) \<subseteq> cells_of t \<union> cells_of nd"
  by (cases t) (auto split: option.splits)

lemma unique_set_child:
  assumes "unique_cells h t" and "k < 3" and "unique_cells h nd"
    and "k = h \<longrightarrow> cell nd = cell t" and "k \<noteq> h \<longrightarrow> cell t \<notin> cells_of nd"
    and "\<And>k' nd'. k' < 3 \<Longrightarrow> k' \<noteq> k \<Longrightarrow> child t k' = Some nd' \<Longrightarrow> cells_of nd \<inter> cells_of nd' = {}"
  shows "unique_cells h (set_child t k nd)"
proof (cases t)
  case (MTree c c0 c1 c2)
  have k: "k = 0 \<or> k = 1 \<or> k = 2" using assms(2) by auto
  have d0: "k \<noteq> 0 \<Longrightarrow> cells_of nd \<inter> branch_cells c0 = {}"
    using assms(6) [of 0] by (cases c0) (auto simp: branch_cells_def MTree)
  have d1: "k \<noteq> 1 \<Longrightarrow> cells_of nd \<inter> branch_cells c1 = {}"
    using assms(6) [of 1] by (cases c1) (auto simp: branch_cells_def MTree)
  have d2: "k \<noteq> 2 \<Longrightarrow> cells_of nd \<inter> branch_cells c2 = {}"
    using assms(6) [of 2] by (cases c2) (auto simp: branch_cells_def MTree)
  have u: "unique_cells h (MTree c c0 c1 c2)" using assms(1) MTree by simp
  have b: "branch_cells (Some nd) = cells_of nd" by (simp add: branch_cells_def)
  from k show ?thesis
  proof (elim disjE)
    assume "k = 0"
    then show ?thesis
      using u assms(3,4,5) d1 d2 by (simp add: MTree b Int_commute)
  next
    assume "k = 1"
    then show ?thesis
      using u assms(3,4,5) d0 d2 by (simp add: MTree b Int_commute)
  next
    assume "k = 2"
    then show ?thesis
      using u assms(3,4,5) d0 d1 by (simp add: MTree b Int_commute)
  qed
qed


lemma memptr_loop_unique:
  assumes "h < 3" and "list_all (\<lambda>t. t < 3) ts" and "unique_cells h cur"
    and "cells_of cur \<subseteq> {..<length cs}"
    and "memptr_loop h ts cur (cell cur) cs = (cur', r, cs')"
  shows "unique_cells h cur' \<and> cells_of cur' \<subseteq> cells_of cur \<union> {length cs..<length cs'} \<and>
         (\<exists>j. cs' = cs @ replicate j new_cell) \<and> cell cur' = cell cur"
  using assms(2-)
proof (induction ts arbitrary: cur cur' r cs cs')
  case Nil
  then show ?case by auto
next
  case (Cons t ts)
  have t: "t < 3" and ts: "list_all (\<lambda>t. t < 3) ts" using Cons.prems(1) by auto
  note uq = Cons.prems(2) and bd = Cons.prems(3)
  show ?case
  proof (cases "child cur t")
    case (Some nd)
    obtain nd' r0 cs0 where l0: "memptr_loop h ts nd (cell nd) cs = (nd', r0, cs0)"
      by (cases "memptr_loop h ts nd (cell nd) cs") auto
    have "(set_child cur t nd', r0, cs0) = (cur', r, cs')"
      using Cons.prems(4) unfolding memptr_loop_Some [OF Some] l0 by simp
    then have loop: "memptr_loop h ts nd (cell nd) cs = (nd', r, cs')"
      and cur': "cur' = set_child cur t nd'"
      using l0 by simp_all
    have un: "unique_cells h nd" and ceq: "t = h \<longrightarrow> cell nd = cell cur"
      and cne: "t \<noteq> h \<longrightarrow> cell cur \<notin> cells_of nd"
      using unique_child [OF uq t Some] by auto
    have sub: "cells_of nd \<subseteq> cells_of cur" using Some by (rule cells_of_child)
    then have bn: "cells_of nd \<subseteq> {..<length cs}" using bd by blast
    note ih = Cons.IH [OF ts un bn loop]
    from ih have i1: "unique_cells h nd'"
      and i2: "cells_of nd' \<subseteq> cells_of nd \<union> {length cs..<length cs'}"
      and i3: "\<exists>j. cs' = cs @ replicate j new_cell" and i4: "cell nd' = cell nd"
      by blast+
    have cb: "cell cur < length cs" using bd cell_in_cells_of [of cur] by auto
    have a1: "t = h \<longrightarrow> cell nd' = cell cur" using i4 ceq by simp
    have a2: "t \<noteq> h \<longrightarrow> cell cur \<notin> cells_of nd'" using i2 cne cb by auto
    have a3: "cells_of nd' \<inter> cells_of x = {}"
      if "k' < 3" "k' \<noteq> t" "child cur k' = Some x" for k' x
    proof -
      have "cells_of nd \<inter> cells_of x = {}"
        using unique_disjoint [OF uq t that(1) _ Some that(3)] that(2) by auto
      moreover have "cells_of x \<subseteq> {..<length cs}"
        using cells_of_child [OF that(3)] bd by blast
      ultimately show ?thesis using i2 by fastforce
    qed
    have a: "unique_cells h cur'"
      unfolding cur' by (rule unique_set_child [OF uq t i1 a1 a2 a3])
    have "cells_of cur' \<subseteq> cells_of cur \<union> cells_of nd'"
      unfolding cur' using t by (rule cells_of_set_child)
    then have b: "cells_of cur' \<subseteq> cells_of cur \<union> {length cs..<length cs'}"
      using i2 sub by blast
    have d: "cell cur' = cell cur" by (simp add: cur' cell_set_child)
    show ?thesis using a b i3 d by blast
  next
    case None
    define c where "c = (if t = h then cell cur else length cs)"
    define cs1 where "cs1 = (if t = h then cs else cs @ [new_cell])"
    let ?new = "MTree c None None None"
    obtain nd' r0 cs0 where l0: "memptr_loop h ts ?new c cs1 = (nd', r0, cs0)"
      by (cases "memptr_loop h ts ?new c cs1") auto
    have "(set_child cur t nd', r0, cs0) = (cur', r, cs')"
      using Cons.prems(4) l0 unfolding memptr_loop_None [OF None] c_def cs1_def by simp
    then have loop: "memptr_loop h ts ?new (cell ?new) cs1 = (nd', r, cs')"
      and cur': "cur' = set_child cur t nd'"
      using l0 by simp_all
    have cb: "cell cur < length cs" using bd cell_in_cells_of [of cur] by auto
    have un: "unique_cells h ?new" by (simp add: branch_cells_def)
    have bn: "cells_of ?new \<subseteq> {..<length cs1}" using cb by (simp add: c_def cs1_def)
    note ih = Cons.IH [OF ts un bn loop]
    from ih have i1: "unique_cells h nd'"
      and i2: "cells_of nd' \<subseteq> cells_of ?new \<union> {length cs1..<length cs'}"
      and i3: "\<exists>j. cs' = cs1 @ replicate j new_cell" and i4: "cell nd' = cell ?new"
      by blast+
    have l1: "length cs \<le> length cs1" by (simp add: cs1_def)
    have i2': "cells_of nd' \<subseteq> {c} \<union> {length cs1..<length cs'}" using i2 by simp
    have a1: "t = h \<longrightarrow> cell nd' = cell cur" using i4 by (simp add: c_def)
    have a2: "t \<noteq> h \<longrightarrow> cell cur \<notin> cells_of nd'" using i2' cb l1 by (auto simp: c_def)
    have a3: "cells_of nd' \<inter> cells_of x = {}"
      if k: "k' < 3" "k' \<noteq> t" "child cur k' = Some x" for k' x
    proof -
      have xb: "cells_of x \<subseteq> {..<length cs}"
        using cells_of_child [OF k(3)] bd by blast
      have "c \<notin> cells_of x"
      proof (cases "t = h")
        case True
        then have "k' \<noteq> h" using k(2) by simp
        then have "cell cur \<notin> cells_of x" using unique_child [OF uq k(1) k(3)] by simp
        then show ?thesis using True by (simp add: c_def)
      next
        case False
        then show ?thesis using xb by (auto simp: c_def)
      qed
      then show ?thesis using i2' xb l1 by fastforce
    qed
    have a: "unique_cells h cur'"
      unfolding cur' by (rule unique_set_child [OF uq t i1 a1 a2 a3])
    have s: "cells_of cur' \<subseteq> cells_of cur \<union> cells_of nd'"
      unfolding cur' using t by (rule cells_of_set_child)
    have lc: "t \<noteq> h \<Longrightarrow> length cs < length cs'" using i3 by (auto simp: cs1_def)
    have "{c} \<union> {length cs1..<length cs'} \<subseteq> cells_of cur \<union> {length cs..<length cs'}"
      using cell_in_cells_of [of cur] l1 lc by (auto simp: c_def)
    then have b: "cells_of cur' \<subseteq> cells_of cur \<union> {length cs..<length cs'}"
      using s i2' by blast
    have e: "\<exists>j. cs' = cs @ replicate j new_cell"
    proof -
      from i3 obtain j where j: "cs' = cs1 @ replicate j new_cell" by blast
      show ?thesis
      proof (cases "t = h")
        case True
        then show ?thesis using j by (auto simp: cs1_def)
      next
        case False
        then have "cs' = cs @ replicate (Suc j) new_cell" using j by (simp add: cs1_def)
        then show ?thesis by blast
      qed
    qed
    have d: "cell cur' = cell cur" by (simp add: cur' cell_set_child)
    show ?thesis using a b e d by blast
  qed
qed

lemma strip_head_Cons:
  "strip_head h (k # q) = (if k = h \<and> strip_head h q = [] then [] else k # strip_head h q)"
  by (auto simp: strip_head_def dropWhile_append dropWhile_eq_Nil_conv)

lemma find_node_cells:
  "find_node t p = Some nd \<Longrightarrow> cells_of nd \<subseteq> cells_of t"
proof (induction p arbitrary: t)
  case Nil
  then show ?case by simp
next
  case (Cons k ks)
  from Cons.prems obtain x where x: "child t k = Some x" "find_node x ks = Some nd"
    by (auto split: option.splits)
  show ?case using Cons.IH [OF x(2)] cells_of_child [OF x(1)] by blast
qed

lemma unique_spine:
  "unique_cells h t \<Longrightarrow> list_all (\<lambda>k. k < 3) p \<Longrightarrow> find_node t p = Some nd \<Longrightarrow>
   cell nd = cell t \<Longrightarrow> strip_head h p = []"
proof (induction p arbitrary: t)
  case Nil
  then show ?case by (simp add: strip_head_def)
next
  case (Cons k ks)
  from Cons.prems(3) obtain x where x: "child t k = Some x" "find_node x ks = Some nd"
    by (auto split: option.splits)
  have k: "k < 3" and ks: "list_all (\<lambda>k. k < 3) ks" using Cons.prems(2) by auto
  note uc = unique_child [OF Cons.prems(1) k x(1)]
  have mem: "cell nd \<in> cells_of x" using find_node_cells [OF x(2)] cell_in_cells_of [of nd] by blast
  have kh: "k = h" using uc mem Cons.prems(4) by auto
  then have "cell nd = cell x" using uc Cons.prems(4) by simp
  then have "strip_head h ks = []" using Cons.IH [of x] uc ks x(2) by blast
  then show ?case using kh by (simp add: strip_head_Cons)
qed

lemma unique_paths:
  "unique_cells h t \<Longrightarrow> list_all (\<lambda>k. k < 3) p \<Longrightarrow> list_all (\<lambda>k. k < 3) p' \<Longrightarrow>
   find_node t p = Some nd \<Longrightarrow> find_node t p' = Some nd' \<Longrightarrow> cell nd = cell nd' \<Longrightarrow>
   strip_head h p = strip_head h p'"
proof (induction p arbitrary: t p')
  case Nil
  then have "cell nd' = cell t" by simp
  then have "strip_head h p' = []" using unique_spine [OF Nil.prems(1,3,5)] by simp
  then show ?case by (simp add: strip_head_def)
next
  case (Cons k ks)
  from Cons.prems(4) obtain x where x: "child t k = Some x" "find_node x ks = Some nd"
    by (auto split: option.splits)
  have k: "k < 3" and ks: "list_all (\<lambda>k. k < 3) ks" using Cons.prems(2) by auto
  show ?case
  proof (cases p')
    case Nil
    then have "cell nd = cell t" using Cons.prems(5,6) by simp
    then have "strip_head h (k # ks) = []"
      by (rule unique_spine [OF Cons.prems(1,2,4)])
    then show ?thesis using Nil by (simp add: strip_head_def)
  next
    case p': (Cons k' ks')
    from Cons.prems(5) p' obtain x' where x': "child t k' = Some x'" "find_node x' ks' = Some nd'"
      by (auto split: option.splits)
    have k': "k' < 3" and ks': "list_all (\<lambda>k. k < 3) ks'" using Cons.prems(3) p' by auto
    have m1: "cell nd \<in> cells_of x" using find_node_cells [OF x(2)] cell_in_cells_of [of nd] by blast
    have m2: "cell nd \<in> cells_of x'"
      using find_node_cells [OF x'(2)] cell_in_cells_of [of nd'] Cons.prems(6) by auto
    have kk: "k = k'"
    proof (rule ccontr)
      assume "k \<noteq> k'"
      then have "cells_of x \<inter> cells_of x' = {}"
        using unique_disjoint [OF Cons.prems(1) k k' _ x(1) x'(1)] by simp
      then show False using m1 m2 by blast
    qed
    then have xx: "x' = x" using x(1) x'(1) by simp
    have ux: "unique_cells h x" using unique_child [OF Cons.prems(1) k x(1)] by simp
    have "strip_head h ks = strip_head h ks'"
      using Cons.IH [OF ux ks ks' x(2) _ Cons.prems(6)] x'(2) xx by simp
    then show ?thesis by (simp add: p' kk strip_head_Cons)
  qed
qed

lemma same_cell_value_eq:
  assumes "memory_ok m" and "memory_inj m" and "wf_number n1" and "wf_number n2"
    and "cell_of m n1 = Some c" and "cell_of m n2 = Some c"
  shows "value_eq n1 n2"
proof -
  have h1: "head n1 < 3" and v1: "list_all (\<lambda>k. k < 3) (tail n1)"
    using assms(3) by (auto simp: wf_number_def)
  have h2: "head n2 < 3" and v2: "list_all (\<lambda>k. k < 3) (tail n2)"
    using assms(4) by (auto simp: wf_number_def)
  from assms(5) obtain nd1 where nd1: "find_node (roots m ! head n1) (tail n1) = Some nd1" "cell nd1 = c"
    by (auto simp: cell_of_def find_cell_def)
  from assms(6) obtain nd2 where nd2: "find_node (roots m ! head n2) (tail n2) = Some nd2" "cell nd2 = c"
    by (auto simp: cell_of_def find_cell_def)
  have c1: "c \<in> cells_of (roots m ! head n1)"
    using find_node_cells [OF nd1(1)] cell_in_cells_of [of nd1] nd1(2) by auto
  have c2: "c \<in> cells_of (roots m ! head n2)"
    using find_node_cells [OF nd2(1)] cell_in_cells_of [of nd2] nd2(2) by auto
  have hh: "head n1 = head n2"
  proof (rule ccontr)
    assume "head n1 \<noteq> head n2"
    then have "cells_of (roots m ! head n1) \<inter> cells_of (roots m ! head n2) = {}"
      using assms(2) h1 h2 unfolding memory_inj_def by blast
    then show False using c1 c2 by blast
  qed
  have u: "unique_cells (head n1) (roots m ! head n1)"
    using assms(2) h1 unfolding memory_inj_def by blast
  have "strip_head (head n1) (tail n1) = strip_head (head n1) (tail n2)"
    using unique_paths [OF u v1 v2 nd1(1) _ ] nd2 nd1(2) hh by simp
  then show ?thesis using hh by (simp add: value_eq_def)
qed

lemma cell_of_bound:
  assumes "memory_inj m" and "head n < 3" and "cell_of m n = Some c"
  shows "c < length (cells m)"
proof -
  from assms(3) obtain nd where nd: "find_node (roots m ! head n) (tail n) = Some nd" "cell nd = c"
    by (auto simp: cell_of_def find_cell_def)
  have "c \<in> cells_of (roots m ! head n)"
    using find_node_cells [OF nd(1)] cell_in_cells_of [of nd] nd(2) by auto
  then show ?thesis using assms(1,2) unfolding memory_inj_def by blast
qed

lemma memory_inj_initial: "memory_inj initial_memory"
  by (simp add: memory_inj_def initial_memory_def less_Suc_eq numeral_3_eq_3 branch_cells_def)

lemma update_memptr_inj:
  assumes "memory_ok m" and "memory_inj m" and "wf_number n" and "memptr n = None"
    and "update_memptr n m = (n', m')"
  shows "memory_inj m' \<and> (\<exists>j. cells m' = cells m @ replicate j new_cell)"
proof -
  let ?h = "head n" and ?root = "roots m ! head n"
  have h: "?h < 3" and v: "list_all (\<lambda>k. k < 3) (tail n)"
    using assms(3) by (auto simp: wf_number_def)
  have len: "length (roots m) = 3" using assms(1) by (simp add: memory_ok_def)
  have uq: "unique_cells ?h ?root" and bd: "cells_of ?root \<subseteq> {..<length (cells m)}"
    using assms(2) h unfolding memory_inj_def by blast+
  obtain root' r cs' where loop: "memptr_loop ?h (tail n) ?root (cell ?root) (cells m) = (root', r, cs')"
    by (cases "memptr_loop ?h (tail n) ?root (cell ?root) (cells m)") auto
  have m': "m' = m\<lparr>roots := (roots m)[?h := root'], cells := cs'\<rparr>"
    using assms(4,5) loop by (simp_all add: update_memptr_def Let_def)
  note props = memptr_loop_unique [OF h v uq bd loop]
  from props have p1: "unique_cells ?h root'"
    and p2: "cells_of root' \<subseteq> cells_of ?root \<union> {length (cells m)..<length cs'}"
    and p3: "\<exists>j. cs' = cells m @ replicate j new_cell" by blast+
  have le: "length (cells m) \<le> length cs'" using p3 by auto
  have r0: "roots m' ! ?h = root'" using len h by (simp add: m')
  have r1: "k \<noteq> ?h \<Longrightarrow> roots m' ! k = roots m ! k" for k by (simp add: m')
  have cm: "cells m' = cs'" by (simp add: m')
  have old: "cells_of (roots m ! k) \<subseteq> {..<length (cells m)}" if "k < 3" for k
    using assms(2) that unfolding memory_inj_def by blast
  have a: "unique_cells k (roots m' ! k) \<and> cells_of (roots m' ! k) \<subseteq> {..<length (cells m')}"
    if k: "k < 3" for k
  proof (cases "k = ?h")
    case True
    have "cells_of root' \<subseteq> {..<length cs'}" using p2 bd le by fastforce
    then show ?thesis using True p1 r0 cm by simp
  next
    case False
    have "unique_cells k (roots m ! k)" using assms(2) k unfolding memory_inj_def by blast
    moreover have "cells_of (roots m ! k) \<subseteq> {..<length cs'}" using old [OF k] le by fastforce
    ultimately show ?thesis using False r1 cm by simp
  qed
  have dis: "cells_of root' \<inter> cells_of (roots m ! k) = {}" if k: "k < 3" "k \<noteq> ?h" for k
  proof -
    have "cells_of ?root \<inter> cells_of (roots m ! k) = {}"
      using assms(2) h k unfolding memory_inj_def by blast
    then show ?thesis using p2 old [OF k(1)] by fastforce
  qed
  have b: "cells_of (roots m' ! k) \<inter> cells_of (roots m' ! k') = {}"
    if k: "k < 3" "k' < 3" "k \<noteq> k'" for k k'
  proof (cases "k = ?h")
    case True
    then show ?thesis using dis [of k'] k r0 r1 [of k'] by simp
  next
    case False
    show ?thesis
    proof (cases "k' = ?h")
      case True
      then show ?thesis using dis [of k] k False r0 r1 [of k] by (simp add: Int_commute)
    next
      case k'h: False
      have "cells_of (roots m ! k) \<inter> cells_of (roots m ! k') = {}"
        using assms(2) k unfolding memory_inj_def by blast
      then show ?thesis using False k'h r1 by simp
    qed
  qed
  have "memory_inj m'" unfolding memory_inj_def using a b by blast
  then show ?thesis using p3 cm by simp
qed

section \<open>Addresses and their cells\<close>

lemma numeric_value_poly3: "numeric_value n = poly3 0 (tail n)"
  by (simp add: numeric_value_def poly3_sum)

lemma value_eq_numeric:
  assumes "value_eq a b" and "head a = 0"
  shows "numeric_value a = numeric_value b"
proof -
  have hb: "head b = 0" and s: "strip_head 0 (tail a) = strip_head 0 (tail b)"
    using assms unfolding value_eq_def by auto
  have "poly3 (int 0) (tail a) = poly3 (int 0) (strip_head 0 (tail a))" by (rule poly3_strip)
  moreover have "poly3 (int 0) (tail b) = poly3 (int 0) (strip_head 0 (tail b))" by (rule poly3_strip)
  ultimately show ?thesis using s by (simp add: numeric_value_poly3)
qed

lemma poly3_snoc: "poly3 0 (ts @ [x]) = poly3 0 ts + int x * 3 ^ length ts"
  by (induction ts) (simp_all add: algebra_simps)

lemma inc_loop_value:
  "list_all (\<lambda>t. t < 3) ts \<Longrightarrow> inc_loop ts = (ts', c) \<Longrightarrow>
   length ts' = length ts \<and> poly3 0 ts' + (if c then 3 ^ length ts else 0) = poly3 0 ts + 1"
proof (induction ts arbitrary: ts' c)
  case Nil
  then show ?case by auto
next
  case (Cons t ts)
  have t: "t < 3" and ts: "list_all (\<lambda>t. t < 3) ts" using Cons.prems(1) by auto
  show ?case
  proof (cases "t = 2")
    case True
    obtain us d where l: "inc_loop ts = (us, d)" by (cases "inc_loop ts") auto
    have r: "ts' = 0 # us" "c = d" using Cons.prems(2) True l by (auto simp: Let_def)
    from Cons.IH [OF ts l] show ?thesis using r True by (auto simp: algebra_simps)
  next
    case False
    with t have "(t + 1) mod 3 = t + 1" by simp
    then have "ts' = (t + 1) # ts" "\<not> c" using Cons.prems(2) by (auto simp: Let_def)
    then show ?thesis by simp
  qed
qed

lemma increment_address:
  assumes "address_of n k"
  shows "address_of (increment cs n) (Suc k)"
    and "memptr (increment cs n) = (case memptr n of None \<Rightarrow> None | Some p \<Rightarrow> next_cell (cs ! p))"
proof -
  have w: "wf_number n" and h: "head n = 0" and v: "numeric_value n = int k"
    using assms by (auto simp: address_of_def)
  have va: "list_all (\<lambda>t. t < 3) (tail n)" using w by (simp add: wf_number_def)
  obtain ts c where l: "inc_loop (tail n) = (ts, c)" by (cases "inc_loop (tail n)") auto
  note iv = inc_loop_value [OF va l]
  have pv: "poly3 0 (tail n) = int k" using v by (simp add: numeric_value_poly3)
  have "head (increment cs n) = 0 \<and> numeric_value (increment cs n) = int (Suc k)"
  proof (cases c)
    case True
    then have "tail (increment cs n) = ts @ [1]" "head (increment cs n) = 0"
      using l h by (auto simp: increment_def Let_def split: option.splits)
    then show ?thesis using iv True pv by (simp add: numeric_value_poly3 poly3_snoc)
  next
    case False
    then have "tail (increment cs n) = ts" "head (increment cs n) = 0"
      using l h by (auto simp: increment_def Let_def split: option.splits)
    then show ?thesis using iv False pv by (simp add: numeric_value_poly3)
  qed
  then show "address_of (increment cs n) (Suc k)"
    using wf_increment [OF w] by (simp add: address_of_def)
  show "memptr (increment cs n) = (case memptr n of None \<Rightarrow> None | Some p \<Rightarrow> next_cell (cs ! p))"
    using l by (auto simp: increment_def Let_def split: option.splits)
qed

lemma address_unique:
  assumes "memory_ok m" and "memory_inj m" and "address_of a j" and "address_of b k"
    and "cell_of m a = Some c" and "cell_of m b = Some c"
  shows "j = k"
proof -
  have "value_eq a b"
    using same_cell_value_eq [OF assms(1,2) _ _ assms(5,6)] assms(3,4) by (simp add: address_of_def)
  moreover have "head a = 0" using assms(3) by (simp add: address_of_def)
  ultimately have "numeric_value a = numeric_value b" by (rule value_eq_numeric)
  then show ?thesis using assms(3,4) by (simp add: address_of_def)
qed

lemma cells_inv_fresh:
  assumes "cells_inv k m" and "address_of a k" and "cell_of m a = Some q"
  shows "q < length (cells m) \<and> val (cells m ! q) = None \<and> next_cell (cells m ! q) = None"
proof -
  have ok: "memory_ok m" "memory_inj m" using assms(1) by (simp_all add: cells_inv_def)
  have q: "q < length (cells m)"
    using cell_of_bound [OF ok(2) _ assms(3)] assms(2) by (simp add: address_of_def)
  have "\<not> (\<exists>j<k. cell_at m j q)"
  proof
    assume "\<exists>j<k. cell_at m j q"
    then obtain j b where j: "j < k" "address_of b j" "cell_of m b = Some q"
      by (auto simp: cell_at_def)
    have "j = k" using address_unique [OF ok j(2) assms(2) j(3) assms(3)] .
    then show False using j(1) by simp
  qed
  then show ?thesis using assms(1) q unfolding cells_inv_def by blast
qed

lemma cell_at_bound:
  "memory_inj m \<Longrightarrow> cell_at m j c \<Longrightarrow> c < length (cells m)"
proof -
  assume inj: "memory_inj m" and "cell_at m j c"
  then obtain a where a: "address_of a j" "cell_of m a = Some c" by (auto simp: cell_at_def)
  have "head a < 3" using a(1) by (simp add: address_of_def)
  then show ?thesis using inj a(2) by (intro cell_of_bound [of m a c])
qed

text \<open>A lookup of a number that has no cached cell.\<close>

lemma lookup_keeps:
  assumes "cells_inv k m" and "wf_number n" and "memptr n = None"
    and "update_memptr n m = (n', m')"
  shows "cells_inv k m'" and "\<exists>j. cells m' = cells m @ replicate j new_cell"
    and "\<And>n0 c. wf_number n0 \<Longrightarrow> cell_of m n0 = Some c \<Longrightarrow> cell_of m' n0 = Some c"
    and "memptr n' = cell_of m' n" and "memptr n' \<noteq> None"
    and "head n' = head n" and "tail n' = tail n"
proof -
  have ok: "memory_ok m" "memory_inj m" using assms(1) by (simp_all add: cells_inv_def)
  note w = update_memptr_walk [OF ok(1) assms(2,3,4)]
  note i = update_memptr_inj [OF ok assms(2,3,4)]
  from w show keep: "\<And>n0 c. wf_number n0 \<Longrightarrow> cell_of m n0 = Some c \<Longrightarrow> cell_of m' n0 = Some c"
    and "memptr n' = cell_of m' n" and "memptr n' \<noteq> None" by blast+
  from i show app: "\<exists>j. cells m' = cells m @ replicate j new_cell" by blast
  then obtain j where j: "cells m' = cells m @ replicate j new_cell" by blast
  show "head n' = head n" "tail n' = tail n"
    using assms(3,4) by (auto simp: update_memptr_def Let_def split: prod.splits)
  have at: "cell_at m i c \<Longrightarrow> cell_at m' i c" for i c
    using keep by (auto simp: cell_at_def address_of_def)
  have cell: "(val (cells m' ! c) \<noteq> None \<or> next_cell (cells m' ! c) \<noteq> None \<longrightarrow> (\<exists>j<k. cell_at m' j c)) \<and>
        (\<forall>v. val (cells m' ! c) = Some v \<longrightarrow> wf_number v)" if c: "c < length (cells m')" for c
  proof (cases "c < length (cells m)")
    case True
    then have "cells m' ! c = cells m ! c" by (simp add: j nth_append)
    then show ?thesis using assms(1) True at unfolding cells_inv_def by metis
  next
    case False
    then have "cells m' ! c = new_cell" using c by (simp add: j nth_append)
    then show ?thesis by (simp add: new_cell_def)
  qed
  show "cells_inv k m'"
    unfolding cells_inv_def using w i cell by blast
qed

lemma poly3_nonneg: "0 \<le> poly3 0 ts"
  by (induction ts) simp_all

lemma poly3_zero: "poly3 0 ts = 0 \<Longrightarrow> strip_head 0 ts = []"
proof (induction ts)
  case Nil
  then show ?case by (simp add: strip_head_def)
next
  case (Cons t ts)
  have n: "0 \<le> poly3 0 ts" by (rule poly3_nonneg)
  have "int t + 3 * poly3 0 ts = 0" using Cons.prems by simp
  then have "int t = 0" "poly3 0 ts = 0" using n by linarith+
  then have "t = 0" "strip_head 0 ts = []" using Cons.IH by simp_all
  then show ?case by (simp add: strip_head_Cons)
qed

lemma poly3_inj:
  "list_all (\<lambda>t. t < 3) xs \<Longrightarrow> list_all (\<lambda>t. t < 3) ys \<Longrightarrow> poly3 0 xs = poly3 0 ys \<Longrightarrow>
   strip_head 0 xs = strip_head 0 ys"
proof (induction xs arbitrary: ys)
  case Nil
  then have "strip_head 0 ys = []" by (intro poly3_zero) simp
  then show ?case by (simp add: strip_head_def)
next
  case (Cons x xs)
  show ?case
  proof (cases ys)
    case Nil
    then have "strip_head 0 (x # xs) = []" using Cons.prems(3) by (intro poly3_zero) simp
    then show ?thesis using Nil by (simp add: strip_head_def)
  next
    case ys: (Cons y ys')
    have b: "x < 3" "y < 3" and v: "list_all (\<lambda>t. t < 3) xs" "list_all (\<lambda>t. t < 3) ys'"
      using Cons.prems(1,2) ys by auto
    have e: "int x + 3 * poly3 0 xs = int y + 3 * poly3 0 ys'" using Cons.prems(3) ys by simp
    have "int x = int y \<and> poly3 0 xs = poly3 0 ys'" using e b by presburger
    then have xy: "x = y" and "poly3 0 xs = poly3 0 ys'" by simp_all
    then have "strip_head 0 xs = strip_head 0 ys'" using Cons.IH v by blast
    then show ?thesis by (simp add: ys xy strip_head_Cons)
  qed
qed

lemma address_value_eq:
  assumes "address_of a k" and "address_of b k"
  shows "value_eq a b"
proof -
  have v: "list_all (\<lambda>t. t < 3) (tail a)" "list_all (\<lambda>t. t < 3) (tail b)"
    "poly3 0 (tail a) = poly3 0 (tail b)" and h: "head a = 0" "head b = 0"
    using assms by (simp_all add: address_of_def wf_number_def numeric_value_poly3)
  have "strip_head 0 (tail a) = strip_head 0 (tail b)" using v by (rule poly3_inj)
  then show ?thesis using h by (simp add: value_eq_def)
qed

lemma cell_at_unique:
  assumes "memory_ok m" and "cell_at m k c" and "cell_at m k c'"
  shows "c = c'"
proof -
  from assms(2,3) obtain a b where a: "address_of a k" "cell_of m a = Some c"
    and b: "address_of b k" "cell_of m b = Some c'"
    by (auto simp: cell_at_def)
  have "wf_number a" "wf_number b" using a(1) b(1) by (simp_all add: address_of_def)
  then show ?thesis
    using value_eq_same_cell [OF assms(1) _ _ address_value_eq [OF a(1) b(1)] a(2) b(2)] by simp
qed

lemma address_of_cong: "head a = head b \<Longrightarrow> tail a = tail b \<Longrightarrow> address_of a k = address_of b k"
  by (simp add: address_of_def wf_number_def numeric_value_def)

lemma cell_of_cong: "head a = head b \<Longrightarrow> tail a = tail b \<Longrightarrow> cell_of m a = cell_of m b"
  by (simp add: cell_of_def)

lemma cell_at_roots: "roots m' = roots m \<Longrightarrow> cell_at m' j c = cell_at m j c"
  by (simp add: cell_at_def cell_of_def)

lemma cells_inv_store:
  assumes "cells_inv k m" and "address_of a k" and "cell_of m a = Some q" and "wf_number v"
  shows "cells_inv (Suc k) (store_val m q v)"
proof -
  let ?m = "store_val m q v"
  have r: "roots ?m = roots m" and l: "length (cells ?m) = length (cells m)"
    by (simp_all add: store_val_def)
  have ok: "memory_ok ?m" "memory_inj ?m"
    using assms(1) by (simp_all add: cells_inv_def memory_ok_def memory_inj_def r l)
  have at: "cell_at ?m j c = cell_at m j c" for j c using r by (rule cell_at_roots)
  have q: "cell_at m k q" using assms(2,3) by (auto simp: cell_at_def)
  have cell: "(val (cells ?m ! c) \<noteq> None \<or> next_cell (cells ?m ! c) \<noteq> None \<longrightarrow> (\<exists>j<Suc k. cell_at ?m j c)) \<and>
        (\<forall>w. val (cells ?m ! c) = Some w \<longrightarrow> wf_number w)" if c: "c < length (cells ?m)" for c
  proof (cases "c = q")
    case True
    have "val (cells ?m ! c) = Some v" using c True l by (simp add: store_val_def)
    moreover have "\<exists>j<Suc k. cell_at ?m j c" using q True at by blast
    ultimately show ?thesis using assms(4) by simp
  next
    case False
    then have e: "cells ?m ! c = cells m ! c" by (simp add: store_val_def)
    have "(val (cells m ! c) \<noteq> None \<or> next_cell (cells m ! c) \<noteq> None \<longrightarrow> (\<exists>j<k. cell_at m j c)) \<and>
        (\<forall>w. val (cells m ! c) = Some w \<longrightarrow> wf_number w)"
      using assms(1) c l unfolding cells_inv_def by simp
    then show ?thesis unfolding e at using less_Suc_eq by blast
  qed
  show ?thesis unfolding cells_inv_def using ok cell by blast
qed

lemma cells_inv_set_next:
  assumes "cells_inv k m" and "val (cells m ! p) \<noteq> None"
  shows "cells_inv k (m\<lparr>cells := (cells m)[p := (cells m ! p)\<lparr>next_cell := x\<rparr>]\<rparr>)"
proof -
  let ?m = "m\<lparr>cells := (cells m)[p := (cells m ! p)\<lparr>next_cell := x\<rparr>]\<rparr>"
  have r: "roots ?m = roots m" and l: "length (cells ?m) = length (cells m)" by simp_all
  have ok: "memory_ok ?m" "memory_inj ?m"
    using assms(1) by (simp_all add: cells_inv_def memory_ok_def memory_inj_def)
  have at: "cell_at ?m j c = cell_at m j c" for j c using r by (rule cell_at_roots)
  have cell: "(val (cells ?m ! c) \<noteq> None \<or> next_cell (cells ?m ! c) \<noteq> None \<longrightarrow> (\<exists>j<k. cell_at ?m j c)) \<and>
        (\<forall>w. val (cells ?m ! c) = Some w \<longrightarrow> wf_number w)" if c: "c < length (cells ?m)" for c
  proof -
    have old: "(val (cells m ! c) \<noteq> None \<or> next_cell (cells m ! c) \<noteq> None \<longrightarrow> (\<exists>j<k. cell_at m j c)) \<and>
        (\<forall>w. val (cells m ! c) = Some w \<longrightarrow> wf_number w)"
      using assms(1) c unfolding cells_inv_def by simp
    show ?thesis
    proof (cases "c = p")
      case True
      then have "val (cells ?m ! c) = val (cells m ! c)" using c by simp
      then show ?thesis unfolding at using old assms(2) True by auto
    next
      case False
      then have "cells ?m ! c = cells m ! c" by simp
      then show ?thesis unfolding at using old by simp
    qed
  qed
  show ?thesis unfolding cells_inv_def using ok cell by blast
qed

text \<open>Storing a value at the address of \<open>init\<close> and moving \<open>init\<close> on.\<close>

lemma store_advance:
  assumes inv: "cells_inv k m" and a: "address_of init k" and mp: "memptr init = Some q"
    and cq: "cell_of m init = Some q" and wv: "wf_number v"
    and adv: "advance init (store_val m q v) = (init', m')"
  shows "cells_inv (Suc k) m'" and "address_of init' (Suc k)"
    and "memptr init' = cell_of m' init'" and "memptr init' \<noteq> None"
    and "\<And>n0 c. wf_number n0 \<Longrightarrow> cell_of m n0 = Some c \<Longrightarrow> cell_of m' n0 = Some c"
    and "val (cells m' ! q) = Some v"
    and "\<And>c. c < length (cells m) \<Longrightarrow> c \<noteq> q \<Longrightarrow> val (cells m' ! c) = val (cells m ! c)"
    and "q < length (cells m)" and "val (cells m ! q) = None"
    and "length (cells m) \<le> length (cells m')"
proof -
  let ?m1 = "store_val m q v"
  let ?n1 = "increment (cells ?m1) init"
  from cells_inv_fresh [OF inv a cq]
  have q: "q < length (cells m)" and qv: "val (cells m ! q) = None"
    and qn: "next_cell (cells m ! q) = None" by simp_all
  show "q < length (cells m)" "val (cells m ! q) = None" using q qv by simp_all
  have inv1: "cells_inv (Suc k) ?m1" using inv a cq wv by (rule cells_inv_store)
  have c1: "cells ?m1 = (cells m)[q := (cells m ! q)\<lparr>val := Some v\<rparr>]" by (simp add: store_val_def)
  have r1: "cell_of ?m1 n0 = cell_of m n0" for n0 by (simp add: store_val_def cell_of_def)
  have n1a: "address_of ?n1 (Suc k)" using a by (rule increment_address(1))
  have "memptr ?n1 = next_cell (cells ?m1 ! q)"
    using increment_address(2) [OF a, of "cells ?m1"] mp by simp
  then have n1m: "memptr ?n1 = None" using q qn by (simp add: c1)
  have n1w: "wf_number ?n1" using n1a by (simp add: address_of_def)
  obtain n2 m2 where um: "update_memptr ?n1 ?m1 = (n2, m2)"
    by (cases "update_memptr ?n1 ?m1") auto
  note lk = lookup_keeps [OF inv1 n1w n1m um]
  from lk(2) obtain j where j: "cells m2 = cells ?m1 @ replicate j new_cell" by blast
  have q2: "cells m2 ! q = (cells m ! q)\<lparr>val := Some v\<rparr>" using q by (simp add: j c1 nth_append)
  then have "next_cell (cells m2 ! q) = None" using qn by simp
  then have res: "init' = n2" "m' = m2\<lparr>cells := (cells m2)[q := (cells m2 ! q)\<lparr>next_cell := memptr n2\<rparr>]\<rparr>"
    using adv um mp by (auto simp: advance_def Let_def)
  have v2: "val (cells m2 ! q) \<noteq> None" using q2 by simp
  show "cells_inv (Suc k) m'" unfolding res using lk(1) v2 by (rule cells_inv_set_next)
  show "address_of init' (Suc k)"
    using n1a address_of_cong [OF lk(6,7)] by (simp add: res)
  have r2: "cell_of m' n0 = cell_of m2 n0" for n0 by (simp add: res cell_of_def)
  have "cell_of m2 n2 = cell_of m2 ?n1" using lk(6,7) by (rule cell_of_cong)
  then show "memptr init' = cell_of m' init'" using lk(4) by (simp add: res(1) r2)
  show "memptr init' \<noteq> None" using lk(5) by (simp add: res)
  show "\<And>n0 c. wf_number n0 \<Longrightarrow> cell_of m n0 = Some c \<Longrightarrow> cell_of m' n0 = Some c"
    using lk(3) by (simp add: r1 r2)
  have lq: "q < length (cells m2)" using q by (simp add: j c1)
  show "val (cells m' ! q) = Some v" using lq q2 by (simp add: res)
  show "val (cells m' ! c) = val (cells m ! c)" if "c < length (cells m)" "c \<noteq> q" for c
    using that by (simp add: res j c1 nth_append)
  show "length (cells m) \<le> length (cells m')" by (simp add: res j c1)
qed

section \<open>The rounds of the loader after the end of the file\<close>

lemma init_loop_steps: "init_loop p ld = init_steps p (nat (18 - p)) ld"
proof (induction p ld rule: init_loop.induct)
  case (1 pos ld)
  show ?case
  proof (cases "pos < 18")
    case True
    then have "nat (18 - pos) = Suc (nat (18 - (pos + 1)))" by simp
    then show ?thesis
      using True 1 by (subst init_loop.simps) simp
  next
    case False
    then show ?thesis by (subst init_loop.simps) simp
  qed
qed

lemma init_steps_add:
  "init_steps p (a + b) ld = init_steps (p + int a) b (init_steps p a ld)"
  by (induction a arbitrary: p ld) (simp_all add: algebra_simps)

lemma init_step_values:
  "ld_initial_values (init_step pos ld) =
     (if pos < 12 then ld_initial_values ld
      else (ld_initial_values ld)[nat (pos - 12) := Some (retained ld)])"
  by (simp add: init_step_def retained_def Let_def split: prod.splits)

lemma init_steps_values_early:
  "p + int n \<le> 12 \<Longrightarrow> ld_initial_values (init_steps p n ld) = ld_initial_values ld"
  by (induction n arbitrary: p ld) (simp_all add: init_step_values)

lemma load_char_values:
  "load_char b ld = Inr ld' \<Longrightarrow> ld_initial_values ld' = ld_initial_values ld"
  by (auto simp: load_char_def Let_def split: if_splits sum.splits prod.splits)

lemma load_loop_values:
  "load_loop bs ld = Inr ld' \<Longrightarrow> ld_initial_values ld' = ld_initial_values ld"
proof (induction bs arbitrary: ld)
  case Nil
  then show ?case by simp
next
  case (Cons b bs)
  then show ?case
    by (cases "load_char b ld") (auto dest: load_char_values)
qed

lemma read_program_values:
  "read_program prog = Inr ld0 \<Longrightarrow> ld_initial_values ld0 = replicate 6 None"
  by (auto simp: read_program_def split: sum.splits prod.splits if_splits dest: load_loop_values)

lemma load_char_pos:
  "0 \<le> ld_pos ld \<Longrightarrow> load_char b ld = Inr ld' \<Longrightarrow> 0 \<le> ld_pos ld'"
  by (auto simp: load_char_def Let_def split: if_splits sum.splits prod.splits)

lemma six_updates:
  "length xs = 6 \<Longrightarrow>
   xs[0 := a, Suc 0 := b, 2 := c, 3 := d, 4 := e, 5 := f] = [a, b, c, d, e, f]"
  by (auto simp: length_Suc_conv numeral_eq_Suc)


lemma six_rounds:
  assumes "length (ld_initial_values ld) = 6"
  shows "ld_initial_values (init_steps 12 6 ld) =
           map (\<lambda>j. Some (retained (init_steps 12 j ld))) [0, 1, 2, 3, 4, 5]"
proof -
  define l1 where "l1 = init_step 12 ld"
  define l2 where "l2 = init_step 13 l1"
  define l3 where "l3 = init_step 14 l2"
  define l4 where "l4 = init_step 15 l3"
  define l5 where "l5 = init_step 16 l4"
  define l6 where "l6 = init_step 17 l5"
  have s1: "init_steps 12 1 ld = l1" by (simp add: l1_def)
  have s2: "init_steps 12 2 ld = l2" by (simp add: l1_def l2_def numeral_2_eq_2)
  have s3: "init_steps 12 3 ld = l3" by (simp add: l1_def l2_def l3_def numeral_3_eq_3)
  have s4: "init_steps 12 4 ld = l4"
    using init_steps_add [of 12 3 1 ld] by (simp add: s3 l4_def)
  have s5: "init_steps 12 5 ld = l5"
    using init_steps_add [of 12 4 1 ld] by (simp add: s4 l5_def)
  have s6: "init_steps 12 6 ld = l6"
    using init_steps_add [of 12 5 1 ld] by (simp add: s5 l6_def)
  have "ld_initial_values l6 =
          (ld_initial_values ld)[0 := Some (retained ld), Suc 0 := Some (retained l1),
            2 := Some (retained l2), 3 := Some (retained l3), 4 := Some (retained l4),
            5 := Some (retained l5)]"
    by (simp add: l1_def l2_def l3_def l4_def l5_def l6_def init_step_values)
  also have "\<dots> = [Some (retained ld), Some (retained l1), Some (retained l2),
                     Some (retained l3), Some (retained l4), Some (retained l5)]"
    using assms by (rule six_updates)
  finally show ?thesis
    by (simp add: s2 s3 s4 s5 s6 flip: l1_def)
qed

lemma load_loop_pos:
  "load_loop bs ld = Inr ld' \<Longrightarrow> 0 \<le> ld_pos ld \<Longrightarrow> 0 \<le> ld_pos ld'"
proof (induction bs arbitrary: ld)
  case Nil
  then show ?case by simp
next
  case (Cons b bs)
  then show ?case
    by (cases "load_char b ld") (auto dest: load_char_pos)
qed

lemma read_program_pos: "read_program prog = Inr ld0 \<Longrightarrow> 0 \<le> ld_pos ld0"
  by (auto simp: read_program_def split: sum.splits prod.splits if_splits dest: load_loop_pos)

lemma opr_trit_less: "opr_trit a d < 3"
proof -
  have "a mod 3 + 3 * (d mod 3) < length OPR" by (simp add: OPR_def)
  moreover have "list_all (\<lambda>t. t < 3) OPR" by (simp add: OPR_def)
  ultimately show ?thesis unfolding opr_trit_def by (simp add: list_all_length)
qed

lemma opr_loop_valid: "list_all (\<lambda>t. t < 3) (opr_loop ha hb xs ys)"
  by (induction ha hb xs ys rule: opr_loop.induct) (simp_all add: opr_trit_less)

lemma wf_opr:
  assumes "tail a \<noteq> []"
  shows "wf_number (fst (opr a d))" and "wf_number (snd (opr a d))"
    and "memptr (snd (opr a d)) = None"
proof -
  have "length (opr_loop (head a) (head d) (tail a) (tail d)) \<noteq> 0"
    unfolding length_opr_loop using assms by simp
  then have ne: "opr_loop (head a) (head d) (tail a) (tail d) \<noteq> []" by simp
  show "wf_number (fst (opr a d))" "wf_number (snd (opr a d))"
    using ne by (simp_all add: opr_def Let_def wf_number_def opr_trit_less opr_loop_valid)
  show "memptr (snd (opr a d)) = None" by (simp add: opr_def Let_def)
qed

lemma update_unicode_fields:
  "head (update_unicode n) = head n" "tail (update_unicode n) = tail n"
  "memptr (update_unicode n) = memptr n"
  by (simp_all add: update_unicode_def)

lemma wf_update_unicode: "wf_number (update_unicode n) = wf_number n"
  by (simp add: wf_number_def update_unicode_fields)

lemma wf_clone_number: "wf_number (clone_number n) = wf_number n"
  by (simp add: wf_number_def clone_number_def)

lemma to_trits_valid: "list_all (\<lambda>t. t < 3) (to_trits k) \<and> to_trits k \<noteq> []"
proof (induction k rule: to_trits.induct)
  case (1 symbol)
  show ?case
  proof (cases "symbol div 3 = 0")
    case True
    then show ?thesis by (subst (1 2) to_trits.simps) simp
  next
    case False
    then show ?thesis using 1 by (subst (1 2) to_trits.simps) simp
  qed
qed

lemma wf_to_number: "to_number v = Inr num \<Longrightarrow> wf_number num"
  using to_trits_valid by (auto simp: to_number_def wf_number_def split: if_splits)

lemma loader_step:
  assumes li: "loader_inv k ld"
    and mid: "cells_inv k m"
      "\<And>n0 c. wf_number n0 \<Longrightarrow> cell_of (ld_memory ld) n0 = Some c \<Longrightarrow> cell_of m n0 = Some c"
      "\<exists>j. cells m = cells (ld_memory ld) @ replicate j new_cell"
    and wv: "wf_number v" and mp: "memptr (ld_init ld) = Some q"
    and adv: "advance (ld_init ld) (store_val m q v) = (init', m')"
    and ld': "ld_memory ld' = m'" "ld_init ld' = init'" "ld_prevprev ld' = ld_prev ld"
      "ld_prev ld' = Some q"
  shows "loader_inv (Suc k) ld'"
    and "val (cells m' ! q) = Some v"
    and "\<And>c. c < length (cells (ld_memory ld)) \<Longrightarrow> c \<noteq> q \<Longrightarrow>
           val (cells m' ! c) = val (cells (ld_memory ld) ! c)"
    and "cell_of m' (ld_init ld) = Some q"
    and "q < length (cells (ld_memory ld))" and "val (cells (ld_memory ld) ! q) = None"
proof -
  let ?m0 = "ld_memory ld"
  have inv0: "cells_inv k ?m0" and a: "address_of (ld_init ld) k"
    and cq0: "cell_of ?m0 (ld_init ld) = Some q"
    using li mp by (auto simp: loader_inv_def)
  have wi: "wf_number (ld_init ld)" using a by (simp add: address_of_def)
  have cq: "cell_of m (ld_init ld) = Some q" using mid(2) wi cq0 by blast
  note sa = store_advance [OF mid(1) a mp cq wv adv]
  from mid(3) obtain j where j: "cells m = cells ?m0 @ replicate j new_cell" by blast
  from cells_inv_fresh [OF inv0 a cq0]
  have q0: "q < length (cells ?m0)" and qv: "val (cells ?m0 ! q) = None" by simp_all
  show "q < length (cells ?m0)" "val (cells ?m0 ! q) = None" using q0 qv by simp_all
  show "val (cells m' ! q) = Some v" by (rule sa(6))
  show old: "val (cells m' ! c) = val (cells ?m0 ! c)" if c: "c < length (cells ?m0)" "c \<noteq> q" for c
  proof -
    have "c < length (cells m)" using c(1) by (simp add: j)
    then have "val (cells m' ! c) = val (cells m ! c)" using c(2) by (rule sa(7))
    then show ?thesis using c(1) by (simp add: j nth_append)
  qed
  have keep: "cell_of m' n0 = Some c" if "wf_number n0" "cell_of ?m0 n0 = Some c" for n0 c
    using sa(5) mid(2) that by blast
  show cq': "cell_of m' (ld_init ld) = Some q" using keep wi cq0 by blast
  have at: "cell_at m' i c" if "cell_at ?m0 i c" for i c
    using that keep by (auto simp: cell_at_def address_of_def)
  have i0: "memory_inj ?m0" using inv0 by (simp add: cells_inv_def)
  have pop: "val (cells m' ! c) \<noteq> None" if "cell_at ?m0 i c" "val (cells ?m0 ! c) \<noteq> None" for i c
  proof (cases "c = q")
    case True
    then show ?thesis using sa(6) by simp
  next
    case False
    have "c < length (cells ?m0)" using i0 that(1) by (rule cell_at_bound)
    then show ?thesis using old False that(2) by simp
  qed
  have 1: "cells_inv (Suc k) (ld_memory ld')" using sa(1) ld'(1) by simp
  have 2: "address_of (ld_init ld') (Suc k)" using sa(2) ld'(2) by simp
  have 3: "\<exists>q. memptr (ld_init ld') = Some q \<and> cell_of (ld_memory ld') (ld_init ld') = Some q"
    using sa(3,4) ld'(1,2) by auto
  have "cell_at m' k q" using a cq' by (auto simp: cell_at_def)
  then have 4: "case ld_prev ld' of None \<Rightarrow> ld_prevprev ld' = None
      | Some c \<Rightarrow> 1 \<le> Suc k \<and> cell_at (ld_memory ld') (Suc k - 1) c \<and>
                  val (cells (ld_memory ld') ! c) \<noteq> None"
    using sa(6) by (simp add: ld')
  have 5: "case ld_prevprev ld' of None \<Rightarrow> True
      | Some c \<Rightarrow> 2 \<le> Suc k \<and> cell_at (ld_memory ld') (Suc k - 2) c \<and>
                  val (cells (ld_memory ld') ! c) \<noteq> None"
  proof (cases "ld_prev ld")
    case None
    then show ?thesis by (simp add: ld')
  next
    case (Some c)
    then have c: "1 \<le> k" "cell_at ?m0 (k - 1) c" "val (cells ?m0 ! c) \<noteq> None"
      using li by (simp_all add: loader_inv_def)
    have "Suc k - 2 = k - 1" by simp
    then show ?thesis using c at [OF c(2)] pop [OF c(2,3)] by (simp add: ld' Some)
  qed
  show "loader_inv (Suc k) ld'" unfolding loader_inv_def using 1 2 3 4 5 by blast
qed

lemma load_char_inv:
  assumes "loader_inv k ld" and "load_char b ld = Inr ld'"
  shows "\<exists>k'. loader_inv k' ld'"
proof (cases "sint b = 32 \<or> sint b = 9 \<or> sint b = 13 \<or> sint b = 10")
  case True
  then have "ld' = ld" using assms(2) by (auto simp: load_char_def Let_def)
  then show ?thesis using assms(1) by blast
next
  case False
  obtain q where q: "memptr (ld_init ld) = Some q" using assms(1) by (auto simp: loader_inv_def)
  from False assms(2) obtain num init' mem2 where num: "to_number (sint b) = Inr num"
    and adv: "advance (ld_init ld) (store_val (ld_memory ld) q num) = (init', mem2)"
    and ld': "ld' = ld\<lparr>ld_memory := mem2, ld_init := init', ld_prevprev := ld_prev ld,
                       ld_prev := Some q, ld_pos := (ld_pos ld + 1) mod 564\<rparr>"
    unfolding load_char_def Let_def q option.sel
    by (auto split: if_splits sum.splits prod.splits)
  have inv0: "cells_inv k (ld_memory ld)" using assms(1) by (simp add: loader_inv_def)
  have e: "\<exists>j. cells (ld_memory ld) = cells (ld_memory ld) @ replicate j new_cell"
    by (rule exI [of _ 0]) simp
  have "loader_inv (Suc k) ld'"
    by (rule loader_step(1) [OF assms(1) inv0 _ e wf_to_number [OF num] q adv])
       (simp_all add: ld')
  then show ?thesis by blast
qed

lemma load_loop_inv:
  "loader_inv k ld \<Longrightarrow> load_loop bs ld = Inr ld' \<Longrightarrow> \<exists>k'. loader_inv k' ld'"
proof (induction bs arbitrary: k ld)
  case Nil
  then show ?case by auto
next
  case (Cons b bs)
  from Cons.prems(2) obtain ld1 where l1: "load_char b ld = Inr ld1" "load_loop bs ld1 = Inr ld'"
    by (cases "load_char b ld") auto
  from load_char_inv [OF Cons.prems(1) l1(1)] obtain k1 where "loader_inv k1 ld1" by blast
  then show ?case using Cons.IH l1(2) by blast
qed

lemma cells_inv_initial: "cells_inv 0 initial_memory"
  unfolding cells_inv_def
  using memory_ok_initial memory_inj_initial
  by (simp add: initial_memory_def new_cell_def nth_Cons' )

lemma read_program_inv:
  assumes "read_program prog = Inr ld0"
  shows "\<exists>k p1 p2. loader_inv k ld0 \<and> ld_prev ld0 = Some p1 \<and> ld_prevprev ld0 = Some p2"
proof -
  define init0 where "init0 = \<lparr>head = 0, tail = to_trits 0, memptr = None, unicode = 0\<rparr>"
  have t0: "to_number 0 = Inr init0" by (simp add: to_number_def init0_def)
  obtain init1 mem1 where um: "update_memptr init0 initial_memory = (init1, mem1)"
    by (cases "update_memptr init0 initial_memory") auto
  define start where "start = \<lparr>ld_memory = mem1, ld_init = init1, ld_prev = None, ld_prevprev = None,
                        ld_pos = 0, ld_initial_values = replicate 6 None\<rparr>"
  have ll: "load_loop prog start = Inr ld0" and pp: "ld_prevprev ld0 \<noteq> None"
    using assms unfolding read_program_def t0 sum.case um prod.case start_def [symmetric]
    by (auto split: sum.splits if_splits)
  have w0: "wf_number init0" using t0 by (rule wf_to_number)
  have "to_trits 0 = [0]" by (subst to_trits.simps) simp
  then have a0: "address_of init0 0" using w0 by (simp add: address_of_def init0_def numeric_value_def)
  have m0: "memptr init0 = None" by (simp add: init0_def)
  note lk = lookup_keeps [OF cells_inv_initial w0 m0 um]
  have a1: "address_of init1 0" using a0 address_of_cong [OF lk(6,7)] by simp
  have "cell_of mem1 init1 = cell_of mem1 init0" using lk(6,7) by (rule cell_of_cong)
  then have "\<exists>q. memptr init1 = Some q \<and> cell_of mem1 init1 = Some q" using lk(4,5) by auto
  then have "loader_inv 0 start"
    unfolding loader_inv_def using lk(1) a1 by (simp add: start_def)
  from load_loop_inv [OF this ll] obtain k where k: "loader_inv k ld0" by blast
  obtain p2 where p2: "ld_prevprev ld0 = Some p2" using pp by auto
  have "ld_prev ld0 \<noteq> None" using k p2 by (auto simp: loader_inv_def split: option.splits)
  then show ?thesis using k p2 by auto
qed

lemma update_memptr_fields:
  "head (fst (update_memptr n m)) = head n" "tail (fst (update_memptr n m)) = tail n"
  by (simp_all add: update_memptr_def Let_def split: prod.splits)

lemma opr_same_trits:
  "head (snd (opr a d)) = head (fst (opr a d))" "tail (snd (opr a d)) = tail (fst (opr a d))"
  by (simp_all add: opr_def Let_def)

lemma init_step_unfold:
  "init_step pos ld =
     (let mem = ld_memory ld;
          r = opr (clone_number (the (val (cells mem ! the (ld_prev ld)))))
                  (clone_number (the (val (cells mem ! the (ld_prevprev ld)))));
          u = update_memptr (update_unicode (snd r)) mem;
          a = advance (ld_init ld)
                (store_val (if pos < 12 then mem else snd u) (the (memptr (ld_init ld)))
                   (update_unicode (fst r)))
      in ld\<lparr>ld_memory := snd a, ld_init := fst a, ld_prevprev := ld_prev ld,
            ld_prev := Some (the (memptr (ld_init ld))),
            ld_initial_values :=
              (if pos < 12 then ld_initial_values ld
               else (ld_initial_values ld)[nat (pos - 12) := Some (fst u)])\<rparr>)"
  by (simp add: init_step_def Let_def split: prod.splits)

lemma init_step_round:
  assumes li: "loader_inv k ld" and p1: "ld_prev ld = Some p1" and p2: "ld_prevprev ld = Some p2"
  shows "synthetic_round k ld (init_step pos ld)" and "loader_inv (Suc k) (init_step pos ld)"
proof -
  let ?m0 = "ld_memory ld"
  have inv0: "cells_inv k ?m0" and a: "address_of (ld_init ld) k"
    using li by (auto simp: loader_inv_def)
  obtain q where q: "memptr (ld_init ld) = Some q" and cq0: "cell_of ?m0 (ld_init ld) = Some q"
    using li by (auto simp: loader_inv_def)
  have k2: "2 \<le> k" and at1: "cell_at ?m0 (k - 1) p1" and at2: "cell_at ?m0 (k - 2) p2"
    and n1: "val (cells ?m0 ! p1) \<noteq> None" and n2: "val (cells ?m0 ! p2) \<noteq> None"
    using li p1 p2 by (simp_all add: loader_inv_def)
  obtain v1 v2 where v1: "val (cells ?m0 ! p1) = Some v1" and v2: "val (cells ?m0 ! p2) = Some v2"
    using n1 n2 by auto
  have i0: "memory_inj ?m0" using inv0 by (simp add: cells_inv_def)
  have b1: "p1 < length (cells ?m0)" using i0 at1 by (rule cell_at_bound)
  have b2: "p2 < length (cells ?m0)" using i0 at2 by (rule cell_at_bound)
  have w1: "wf_number v1" using inv0 b1 v1 unfolding cells_inv_def by blast
  have w2: "wf_number v2" using inv0 b2 v2 unfolding cells_inv_def by blast
  define r where "r = opr (clone_number v1) (clone_number v2)"
  have "tail (clone_number v1) \<noteq> []" using w1 by (simp add: clone_number_def wf_number_def)
  note wo = wf_opr [OF this, of "clone_number v2", folded r_def]
  define u where "u = update_memptr (update_unicode (snd r)) ?m0"
  define m where "m = (if pos < 12 then ?m0 else snd u)"
  define x where "x = update_unicode (fst r)"
  obtain init' m' where adv: "advance (ld_init ld) (store_val m q x) = (init', m')"
    by (cases "advance (ld_init ld) (store_val m q x)") auto
  have f: "ld_memory (init_step pos ld) = m'" "ld_init (init_step pos ld) = init'"
    "ld_prevprev (init_step pos ld) = ld_prev ld" "ld_prev (init_step pos ld) = Some q"
    unfolding init_step_unfold Let_def
    using adv [unfolded m_def] by (auto simp: p1 p2 v1 v2 q simp flip: r_def u_def x_def)
  have wx: "wf_number x" using wo(1) by (simp add: x_def wf_update_unicode)
  have mid: "cells_inv k m \<and>
      (\<forall>n0 c. wf_number n0 \<longrightarrow> cell_of ?m0 n0 = Some c \<longrightarrow> cell_of m n0 = Some c) \<and>
      (\<exists>j. cells m = cells ?m0 @ replicate j new_cell)"
  proof (cases "pos < 12")
    case True
    then have "m = ?m0" by (simp add: m_def)
    moreover have "\<exists>j. cells ?m0 = cells ?m0 @ replicate j new_cell" by (rule exI [of _ 0]) simp
    ultimately show ?thesis using inv0 by simp
  next
    case False
    then have "update_memptr (update_unicode (snd r)) ?m0 = (fst u, m)" by (simp add: m_def u_def)
    from lookup_keeps(1-3) [OF inv0 _ _ this] wo(2,3)
    show ?thesis by (simp add: wf_update_unicode update_unicode_fields)
  qed
  then have mid1: "cells_inv k m"
    and mid2: "\<And>n0 c. wf_number n0 \<Longrightarrow> cell_of ?m0 n0 = Some c \<Longrightarrow> cell_of m n0 = Some c"
    and mid3: "\<exists>j. cells m = cells ?m0 @ replicate j new_cell"
    by blast+
  note ls = loader_step [OF li mid1 mid2 mid3 wx q adv f]
  show inv': "loader_inv (Suc k) (init_step pos ld)" by (rule ls(1))
  have pop: "\<forall>c<length (cells ?m0). val (cells ?m0 ! c) \<noteq> None \<longrightarrow> (\<exists>j<k. cell_at ?m0 j c)"
    using inv0 unfolding cells_inv_def by blast
  have old: "\<forall>c<length (cells ?m0). c \<noteq> q \<longrightarrow>
                val (cells (ld_memory (init_step pos ld)) ! c) = val (cells ?m0 ! c)"
    using ls(3) by (simp add: f)
  have new: "val (cells (ld_memory (init_step pos ld)) ! q) =
               Some (update_unicode (fst (opr (clone_number v1) (clone_number v2))))"
    using ls(2) by (simp add: f x_def r_def)
  have cq': "cell_of (ld_memory (init_step pos ld)) (ld_init ld) = Some q"
    using ls(4) by (simp add: f)
  have a': "address_of (ld_init (init_step pos ld)) (Suc k)"
    and mp': "memptr (ld_init (init_step pos ld)) \<noteq> None"
      "memptr (ld_init (init_step pos ld)) =
         cell_of (ld_memory (init_step pos ld)) (ld_init (init_step pos ld))"
    using inv' by (auto simp: loader_inv_def)
  have pp: "ld_prevprev (init_step pos ld) = Some p1" using f(3) p1 by simp
  have "retained ld = fst (update_memptr (update_unicode (snd r)) ?m0)"
    by (simp add: retained_def Let_def p1 p2 v1 v2 r_def)
  then have rt: "head (retained ld) = head (update_unicode (fst (opr (clone_number v1) (clone_number v2))))"
    "tail (retained ld) = tail (update_unicode (fst (opr (clone_number v1) (clone_number v2))))"
    by (simp_all add: update_memptr_fields update_unicode_fields opr_same_trits r_def)
  show "synthetic_round k ld (init_step pos ld)"
    unfolding synthetic_round_def
    using k2 p2 at2 v2 p1 at1 v1 a q cq0 ls(5) ls(6) pop new old cq' pp f(4) a' mp' rt
    by blast
qed

lemma init_steps_Suc:
  "init_steps p (Suc i) ld = init_step (p + int i) (init_steps p i ld)"
  using init_steps_add [of p i 1 ld] by simp

lemma init_steps_rounds:
  assumes "loader_inv k ld" and "ld_prev ld = Some p1" and "ld_prevprev ld = Some p2"
  shows "loader_inv (k + i) (init_steps p i ld) \<and> ld_prev (init_steps p i ld) \<noteq> None \<and>
         ld_prevprev (init_steps p i ld) \<noteq> None"
proof (induction i)
  case 0
  then show ?case using assms by simp
next
  case (Suc i)
  then obtain a b where ab: "ld_prev (init_steps p i ld) = Some a"
    "ld_prevprev (init_steps p i ld) = Some b" and inv: "loader_inv (k + i) (init_steps p i ld)"
    by auto
  note r = init_step_round [OF inv ab, of "p + int i"]
  have "synthetic_round (k + i) (init_steps p i ld) (init_steps p (Suc i) ld)"
    using r(1) by (simp only: init_steps_Suc)
  then have "ld_prev (init_steps p (Suc i) ld) \<noteq> None \<and> ld_prevprev (init_steps p (Suc i) ld) \<noteq> None"
    unfolding synthetic_round_def by auto
  moreover have "loader_inv (k + Suc i) (init_steps p (Suc i) ld)"
    using r(2) by (simp only: init_steps_Suc add_Suc_right)
  ultimately show ?case by blast
qed

lemma loader_rounds:
  assumes "read_program prog = Inr ld0"
  shows "synthetic_round (nat (numeric_value (ld_init ld0)) + i)
           (init_steps p i ld0) (init_steps p (Suc i) ld0)"
proof -
  from read_program_inv [OF assms] obtain k p1 p2 where k: "loader_inv k ld0"
    and pp: "ld_prev ld0 = Some p1" "ld_prevprev ld0 = Some p2" by blast
  have "numeric_value (ld_init ld0) = int k" using k by (simp add: loader_inv_def address_of_def)
  then have k0: "nat (numeric_value (ld_init ld0)) = k" by simp
  from init_steps_rounds [OF k pp, of i p]
  obtain a b where ab: "ld_prev (init_steps p i ld0) = Some a"
    "ld_prevprev (init_steps p i ld0) = Some b" and inv: "loader_inv (k + i) (init_steps p i ld0)"
    by auto
  show ?thesis
    unfolding k0 init_steps_Suc by (rule init_step_round(1) [OF inv ab])
qed

text \<open>
  Claim C4, as the code has it.  For a program the loader accepts, with \<open>p\<close> the position
  counter at the end of the file reduced modulo 6, the loader performs \<open>18 - p\<close> further
  rounds, with the indices \<open>p\<close> to 17: between 13 and 18 rounds, and 18 only when \<open>p = 0\<close>.
  With \<^verbatim>\<open>init\<close> at the address \<open>k0\<close> at the end of the file, the round number \<open>i\<close> is the
  loop body at the index \<open>p + i\<close> and finds \<^verbatim>\<open>init\<close> at the address \<open>k0 + i\<close>, pointing
  to the cell of that address, which holds no value; \<^verbatim>\<open>prevprev\<close> and \<^verbatim>\<open>prev\<close> are the
  cells of the addresses \<open>k0 + i - 2\<close> and \<open>k0 + i - 1\<close>, both hold values, and every
  cell that holds a value is the cell of an address below \<open>k0 + i\<close>.  The round stores the
  crazy-operation result of clones of the values of these two cells, its Unicode cache
  updated, in the cell of the address \<open>k0 + i\<close>, changes the value of no other cell,
  makes \<^verbatim>\<open>prev\<close> and that cell the new \<^verbatim>\<open>prevprev\<close> and \<^verbatim>\<open>prev\<close>, and moves \<^verbatim>\<open>init\<close>
  to the address \<open>k0 + i + 1\<close>, again pointing to the cell of its address.  The six
  initial values are the numbers kept in the rounds with the indices 12 to 17, each
  computed from the state the earlier rounds have left and each with the trits of the
  result its round stores.  By \<open>cell_at_unique\<close> an address has at most one cell.
\<close>

theorem loader_synthetic_steps:
  assumes "read_program prog = Inr ld0"
  shows "let p = ld_pos ld0 mod 6; n = nat (18 - p); k0 = nat (numeric_value (ld_init ld0))
         in 0 \<le> ld_pos ld0 \<and> load prog = Inr (init_steps p n ld0) \<and> 13 \<le> n \<and> n \<le> 18 \<and> (n = 18) = (p = 0) \<and>
            (\<forall>i<n. init_steps p (Suc i) ld0 = init_step (p + int i) (init_steps p i ld0) \<and>
                    synthetic_round (k0 + i) (init_steps p i ld0) (init_steps p (Suc i) ld0)) \<and>
            ld_initial_values (init_steps p n ld0) =
              map (\<lambda>k. Some (retained (init_steps p (nat (k - p)) ld0))) [12, 13, 14, 15, 16, 17]"
proof -
  define p where "p = ld_pos ld0 mod 6"
  define a where "a = nat (12 - p)"
  define ld12 where "ld12 = init_steps p a ld0"
  have p: "0 \<le> p" "p < 6" by (simp_all add: p_def)
  have pa: "p + int a = 12" using p by (simp add: a_def)
  have n: "nat (18 - p) = a + 6" using p by (simp add: a_def)
  have before: "init_steps p (nat (k - p)) ld0 = init_steps 12 (nat (k - 12)) ld12" if "12 \<le> k" for k
  proof -
    have "nat (k - p) = a + nat (k - 12)" using p that by (simp add: a_def)
    then show ?thesis by (simp add: init_steps_add pa ld12_def)
  qed
  have final: "init_steps p (nat (18 - p)) ld0 = init_steps 12 6 ld12"
    by (simp add: n init_steps_add pa ld12_def)
  have "ld_initial_values ld12 = ld_initial_values ld0"
    unfolding ld12_def using pa by (intro init_steps_values_early) simp
  then have len: "length (ld_initial_values ld12) = 6"
    using read_program_values [OF assms(1)] by simp
  have 1: "load prog = Inr (init_steps p (nat (18 - p)) ld0)"
    by (simp add: load_def assms(1) init_loop_steps p_def)
  have 2: "13 \<le> nat (18 - p)" "nat (18 - p) \<le> 18" "(nat (18 - p) = 18) = (p = 0)"
    using p by auto
  have 3: "ld_initial_values (init_steps p (nat (18 - p)) ld0) =
             map (\<lambda>k. Some (retained (init_steps p (nat (k - p)) ld0))) [12, 13, 14, 15, 16, 17]"
    unfolding final six_rounds [OF len] by (simp add: before)
  have 0: "0 \<le> ld_pos ld0" using assms by (rule read_program_pos)
  have 4: "\<forall>i<nat (18 - p).
             init_steps p (Suc i) ld0 = init_step (p + int i) (init_steps p i ld0) \<and>
             synthetic_round (nat (numeric_value (ld_init ld0)) + i)
               (init_steps p i ld0) (init_steps p (Suc i) ld0)"
    using loader_rounds [OF assms] init_steps_Suc by blast
  show ?thesis
    unfolding Let_def p_def [symmetric] by (intro conjI 0 1 2 3 4)
qed

text \<open>
  The program of the two characters \<^verbatim>\<open>D\<close> and \<^verbatim>\<open>C\<close> is accepted, and its first round is
  such a round: it stores the result in the cell \<^verbatim>\<open>init\<close> points to, shifts \<^verbatim>\<open>prev\<close>
  and \<^verbatim>\<open>prevprev\<close>, and moves \<^verbatim>\<open>init\<close> on by one.
\<close>

theorem loader_synthetic_steps_witness:
  "case read_program [0x44, 0x43] of
     Inr ld0 \<Rightarrow>
       load [0x44, 0x43] = Inr (init_steps (ld_pos ld0 mod 6) (nat (18 - ld_pos ld0 mod 6)) ld0) \<and>
       13 \<le> nat (18 - ld_pos ld0 mod 6) \<and>
       ld_initial_values (init_steps (ld_pos ld0 mod 6) (nat (18 - ld_pos ld0 mod 6)) ld0) =
         map (\<lambda>k. Some (retained (init_steps (ld_pos ld0 mod 6) (nat (k - ld_pos ld0 mod 6)) ld0)))
           [12, 13, 14, 15, 16, 17] \<and>
       synthetic_round (nat (numeric_value (ld_init ld0)))
         ld0 (init_step (ld_pos ld0 mod 6) ld0) \<and>
       val (cells (ld_memory (init_step (ld_pos ld0 mod 6) ld0)) ! the (memptr (ld_init ld0))) =
         Some (update_unicode (fst (opr
           (clone_number (the (val (cells (ld_memory ld0) ! the (ld_prev ld0)))))
           (clone_number (the (val (cells (ld_memory ld0) ! the (ld_prevprev ld0)))))))) \<and>
       ld_prev (init_step (ld_pos ld0 mod 6) ld0) = memptr (ld_init ld0) \<and>
       ld_prevprev (init_step (ld_pos ld0 mod 6) ld0) = ld_prev ld0 \<and>
       numeric_value (ld_init (init_step (ld_pos ld0 mod 6) ld0)) = numeric_value (ld_init ld0) + 1
   | Inl e \<Rightarrow> False"
proof (cases "read_program [0x44, 0x43]")
  case (Inl e)
  moreover have "\<not> isl (read_program [0x44, 0x43])" by code_simp
  ultimately show ?thesis by simp
next
  case (Inr ld0)
  define p where "p = ld_pos ld0 mod 6"
  define k0 where "k0 = nat (numeric_value (ld_init ld0))"
  note t = loader_synthetic_steps [OF Inr, unfolded Let_def, folded p_def k0_def]
  from t have n: "13 \<le> nat (18 - p)" by blast
  then have "0 < nat (18 - p)" by simp
  with t have "init_steps p (Suc 0) ld0 = init_step (p + int 0) (init_steps p 0 ld0) \<and>
      synthetic_round (k0 + 0) (init_steps p 0 ld0) (init_steps p (Suc 0) ld0)" by blast
  then have r: "synthetic_round k0 ld0 (init_step p ld0)" by simp
  then have "numeric_value (ld_init ld0) = int k0"
    "numeric_value (ld_init (init_step p ld0)) = int (Suc k0)"
    unfolding synthetic_round_def address_of_def by blast+
  then have v: "numeric_value (ld_init (init_step p ld0)) = numeric_value (ld_init ld0) + 1" by simp
  from r have s: "val (cells (ld_memory (init_step p ld0)) ! the (memptr (ld_init ld0))) =
         Some (update_unicode (fst (opr
           (clone_number (the (val (cells (ld_memory ld0) ! the (ld_prev ld0)))))
           (clone_number (the (val (cells (ld_memory ld0) ! the (ld_prevprev ld0))))))))"
    "ld_prev (init_step p ld0) = memptr (ld_init ld0)" "ld_prevprev (init_step p ld0) = ld_prev ld0"
    unfolding synthetic_round_def by auto
  from t have 1: "load [0x44, 0x43] = Inr (init_steps p (nat (18 - p)) ld0)" by blast
  from t have 3: "ld_initial_values (init_steps p (nat (18 - p)) ld0) =
         map (\<lambda>k. Some (retained (init_steps p (nat (k - p)) ld0))) [12, 13, 14, 15, 16, 17]"
    by blast
  show ?thesis
    unfolding Inr sum.case p_def [symmetric] k0_def [symmetric]
    by (intro conjI 1 n 3 r s v)
qed

text \<open>
  The claim as stated fails: for the program of the two characters \<^verbatim>\<open>D\<close> and \<^verbatim>\<open>C\<close> the
  position counter is 2 at the end of the file and the loader performs 16 rounds.  It
  starts them with \<^verbatim>\<open>init\<close> at address 2 and ends with \<^verbatim>\<open>init\<close> at address 18, whose
  cell has no value.
\<close>

theorem loader_sixteen_steps:
  "case read_program [0x44, 0x43] of
     Inr ld0 \<Rightarrow>
       ld_pos ld0 = 2 \<and> unicode (ld_init ld0) = 2 \<and> nat (18 - ld_pos ld0 mod 6) = 16 \<and>
       load [0x44, 0x43] = Inr (init_steps 2 16 ld0) \<and>
       unicode (ld_init (init_steps 2 16 ld0)) = 18 \<and>
       val (cells (ld_memory (init_steps 2 16 ld0)) ! the (memptr (ld_init (init_steps 2 16 ld0))))
         = None
   | Inl e \<Rightarrow> False"
  by code_simp

section \<open>Instruction codes outside the eight\<close>

lemma do_out_error: "do_out st = Inl e \<Longrightarrow> e = InvalidCodepoint"
  by (auto simp: do_out_def print_utf8_def Let_def split: if_splits sum.splits)

lemma to_number_error: "to_number x = Inl e \<Longrightarrow> e = UnexpectedNegative"
  by (auto simp: to_number_def split: if_splits)

lemma read_error: "read_utf8_character inp = Inl e \<Longrightarrow> e = InvalidUtf8"
  by (auto simp: read_utf8_character_def getchar_def split: list.splits if_splits)

lemma do_in_error: "do_in st = Inl e \<Longrightarrow> e = InvalidUtf8 \<or> e = UnexpectedNegative"
  by (auto simp: do_in_def split: sum.splits prod.splits if_splits
        dest: to_number_error read_error)

lemma det_growth_error: "det_growth_policy w r s k = Inl e \<Longrightarrow> e = RotationWidthExceeded"
  by (auto simp: det_growth_policy_def Let_def split: if_splits)

lemma nondet_growth_error:
  "nondet_growth_policy w r p s r1 r2 = Inl e \<Longrightarrow> e = RotationWidthExceeded"
  by (auto simp: nondet_growth_policy_def Let_def split: if_splits)

lemma do_movd_error: "do_movd ps st = Inl e \<Longrightarrow> e = RotationWidthExceeded"
  by (auto simp: do_movd_def Let_def split: option.splits prod.splits if_splits sum.splits
        dest: det_growth_error nondet_growth_error)

lemma after_instr_error: "after_instr st = Fail e \<Longrightarrow> e = CannotApplyXlat2"
  by (auto simp: after_instr_def xlat2_def Let_def split: sum.splits prod.splits if_splits)

lemma exec_instr_error:
  "exec_instr ps i st = Fail e \<Longrightarrow>
   e = InvalidCodepoint \<or> e = InvalidUtf8 \<or> e = UnexpectedNegative \<or> e = RotationWidthExceeded"
  by (auto simp: exec_instr_def split: if_splits sum.splits
        dest: do_out_error do_in_error do_movd_error)


lemma exec_step_invalid_instruction:
  assumes "fetch st = (st1, v)" and "exec_step ps st = Fail (InvalidInstruction k)"
  shows "unicode v < 33 \<or> unicode v > 126"
proof (rule ccontr)
  assume "\<not> (unicode v < 33 \<or> unicode v > 126)"
  then have r: "\<not> (unicode v < 33 \<or> unicode v > 126)" .
  show False
  proof (cases "exec_instr ps ((unicode v + st_pos st) mod 94) st1")
    case (Continue st2)
    then have "after_instr st2 = Fail (InvalidInstruction k)"
      using assms r by (simp add: exec_step_def)
    then show False using after_instr_error by blast
  next
    case (Halt st2)
    then show False using assms r by (simp add: exec_step_def)
  next
    case (Fail e)
    then have "e = InvalidInstruction k" using assms r by (simp add: exec_step_def)
    then show False using exec_instr_error [OF Fail] by auto
  qed
qed

lemma store_val_cell:
  "p < length (cells m) \<Longrightarrow> val (cells (store_val m p n) ! p) = Some n"
  by (simp add: store_val_def)

lemma length_store_val: "length (cells (store_val m p n)) = length (cells m)"
  by (simp add: store_val_def)

lemma fetch_cell:
  assumes "fetch st = (st1, v)" and "the (memptr (st_c st)) < length (cells (st_memory st))"
  shows "val (cells (st_memory st1) ! the (memptr (st_c st1))) = Some v"
proof -
  let ?cp = "the (memptr (st_c st))"
  obtain mem1 where m: "st1 = st\<lparr>st_memory := store_val mem1 ?cp v\<rparr>"
    and l: "length (cells mem1) = length (cells (st_memory st))"
    using assms(1) by (auto simp: fetch_def Let_def length_store_val)
  show ?thesis using assms(2) l by (simp add: m store_val_cell)
qed

lemma after_instr_runs:
  assumes "val (cells (st_memory st) ! the (memptr (st_c st))) = Some v"
    and "33 \<le> unicode v" and "unicode v \<le> 126"
  shows "running (after_instr st)"
  using assms
  by (simp add: after_instr_def xlat2_def update_unicode_def Let_def running_def
        split: prod.splits)

text \<open>
  Claim C2, as the code has it.  In a round of the loop, with \<open>v\<close> the number fetched from
  the cell of \<open>C\<close>: the interpreter stops with the diagnostic of an invalid instruction
  when, and only when, the code point of \<open>v\<close> is outside 33 to 126.  When it is inside and
  the decoded instruction is none of 4, 5, 23, 39, 40, 62 and 81, the instruction does
  nothing, as 68 does: the round goes on with \<^verbatim>\<open>xlat2\<close> and the advance of \<open>C\<close> and \<open>D\<close>,
  and the interpreter keeps running.
\<close>

theorem unlisted_instructions_are_nops:
  assumes "fetch st = (st1, v)"
  shows "(unicode v < 33 \<or> unicode v > 126 \<longrightarrow>
            exec_step ps st = Fail (InvalidInstruction (st_step st))) \<and>
         (\<forall>k. exec_step ps st = Fail (InvalidInstruction k) \<longrightarrow> unicode v < 33 \<or> unicode v > 126) \<and>
         (33 \<le> unicode v \<and> unicode v \<le> 126 \<and> decoded_instr st \<notin> {4, 5, 23, 39, 40, 62, 81} \<longrightarrow>
            exec_instr ps (decoded_instr st) st1 = Continue st1 \<and>
            exec_instr ps (decoded_instr st) st1 = exec_instr ps 68 st1 \<and>
            exec_step ps st = after_instr st1 \<and>
            (the (memptr (st_c st)) < length (cells (st_memory st)) \<longrightarrow> running (exec_step ps st)))"
proof -
  have d: "decoded_instr st = (unicode v + st_pos st) mod 94"
    by (simp add: decoded_instr_def assms)
  have 1: "exec_step ps st = Fail (InvalidInstruction (st_step st))"
    if "unicode v < 33 \<or> unicode v > 126"
    using that assms by (auto simp: exec_step_def)
  have 2: "unicode v < 33 \<or> unicode v > 126" if "exec_step ps st = Fail (InvalidInstruction k)" for k
    using assms that by (rule exec_step_invalid_instruction)
  have 3: "exec_instr ps (decoded_instr st) st1 = Continue st1 \<and>
           exec_instr ps (decoded_instr st) st1 = exec_instr ps 68 st1 \<and>
           exec_step ps st = after_instr st1 \<and>
           (the (memptr (st_c st)) < length (cells (st_memory st)) \<longrightarrow> running (exec_step ps st))"
    if r: "33 \<le> unicode v" "unicode v \<le> 126" and n: "decoded_instr st \<notin> {4, 5, 23, 39, 40, 62, 81}"
  proof -
    have a: "exec_instr ps (decoded_instr st) st1 = Continue st1"
      using n by (simp add: exec_instr_def)
    have b: "exec_instr ps 68 st1 = Continue st1" by (simp add: exec_instr_def)
    have c: "exec_step ps st = after_instr st1"
      using a r assms by (simp add: exec_step_def d)
    have "running (after_instr st1)" if "the (memptr (st_c st)) < length (cells (st_memory st))"
      using fetch_cell [OF assms that] r by (rule after_instr_runs)
    then show ?thesis using a b c by simp
  qed
  show ?thesis using 1 2 3 by blast
qed

lemma start_nop_program:
  "case start ps [0x44, 0x43] [] of
     Inr st \<Rightarrow> unicode (snd (fetch st)) = 68 \<and> decoded_instr st = 68 \<and>
               the (memptr (st_c st)) < length (cells (st_memory st))
   | Inl e \<Rightarrow> False"
  by code_simp

theorem unlisted_instructions_are_nops_witness:
  "case start example_params [0x44, 0x43] [] of
     Inr st \<Rightarrow>
       unicode (snd (fetch st)) = 68 \<and> decoded_instr st = 68 \<and>
       exec_step example_params st = after_instr (fst (fetch st)) \<and>
       running (exec_step example_params st)
   | Inl e \<Rightarrow> False"
proof (cases "start example_params [0x44, 0x43] []")
  case (Inl e)
  then show ?thesis using start_nop_program [of example_params] by simp
next
  case (Inr st)
  have f: "unicode (snd (fetch st)) = 68" "decoded_instr st = 68"
    "the (memptr (st_c st)) < length (cells (st_memory st))"
    using start_nop_program [of example_params] by (simp_all add: Inr)
  have p: "fetch st = (fst (fetch st), snd (fetch st))" by simp
  have "exec_step example_params st = after_instr (fst (fetch st)) \<and>
        running (exec_step example_params st)"
    using unlisted_instructions_are_nops [OF p, of example_params] f by auto
  then have e: "exec_step example_params st = after_instr (fst (fetch st))"
    and r: "running (exec_step example_params st)" by blast+
  show ?thesis
    unfolding Inr sum.case using f(1,2) e r by (intro conjI)
qed

text \<open>
  The claim as stated fails.  After 51 rounds of the program of fifty \<^verbatim>\<open>nop\<close>s and a
  \<^verbatim>\<open>jmp\<close>, the cell of \<open>C\<close> holds the code point 108 at position 49; the decoded
  instruction is 63, none of the eight, and the round does not stop the interpreter.
\<close>

lemma jump_back_run:
  "case main ps jump_back_program [] 51 of
     Continue s \<Rightarrow>
       st_step s = 52 \<and> st_pos s = 49 \<and> unicode (snd (fetch s)) = 108 \<and>
       decoded_instr s = 63 \<and> running (exec_step ps s)
   | Halt s \<Rightarrow> False
   | Fail e \<Rightarrow> False"
  by code_simp

theorem unlisted_instruction_runs_on:
  "case main example_params jump_back_program [] 51 of
     Continue s \<Rightarrow>
       st_step s = 52 \<and> st_pos s = 49 \<and> unicode (snd (fetch s)) = 108 \<and>
       decoded_instr s = 63 \<and> running (exec_step example_params s)
   | Halt s \<Rightarrow> False
   | Fail e \<Rightarrow> False"
  by (rule jump_back_run)

end
